theory Spec2Isabelle
  imports Main "HOL-Library.Signed_Division"
begin

unbundle bit_operations_syntax

section \<open>The integer type of the program\<close>

text \<open>
  Every number of \<^verbatim>\<open>rsa.hpp\<close> is a \<^verbatim>\<open>long long\<close>: a signed 64-bit integer.
  It is modelled as an \<^typ>\<open>int\<close> together with the range it must stay in. What C++
  leaves undefined (a sum, difference or product outside the range, a division by zero,
  a right shift by 64 bits or more) and what the standard library throws (\<^verbatim>\<open>std::invalid_argument\<close>,
  \<^verbatim>\<open>std::out_of_range\<close> of \<^verbatim>\<open>std::stoll\<close>) is a \<open>fault\<close>, the left
  injection of the result type; a function that returns normally returns \<open>Inr\<close>.
  C++ division truncates towards zero: \<open>/\<close> is \<open>sdiv\<close> and \<open>%\<close> is \<open>smod\<close>.
\<close>

datatype fault =
  SignedOverflow | DivisionByZero | ShiftOutOfRange | InvalidArgument | OutOfRange

definition and_then :: "fault + 'a \<Rightarrow> ('a \<Rightarrow> fault + 'b) \<Rightarrow> fault + 'b" where
  "and_then r f = (case r of Inl err \<Rightarrow> Inl err | Inr v \<Rightarrow> f v)"

definition LLONG_MIN :: int where
  "LLONG_MIN = - (2 ^ 63)"

definition LLONG_MAX :: int where
  "LLONG_MAX = 2 ^ 63 - 1"

definition in_ll :: "int \<Rightarrow> bool" where
  "in_ll x = (LLONG_MIN \<le> x \<and> x \<le> LLONG_MAX)"

definition ll :: "int \<Rightarrow> fault + int" where
  "ll x = (if in_ll x then Inr x else Inl SignedOverflow)"

definition ll_add :: "int \<Rightarrow> int \<Rightarrow> fault + int" where
  "ll_add a b = ll (a + b)"

definition ll_sub :: "int \<Rightarrow> int \<Rightarrow> fault + int" where
  "ll_sub a b = ll (a - b)"

definition ll_mul :: "int \<Rightarrow> int \<Rightarrow> fault + int" where
  "ll_mul a b = ll (a * b)"

definition ll_div :: "int \<Rightarrow> int \<Rightarrow> fault + int" where
  "ll_div a b = (if b = 0 then Inl DivisionByZero else ll (a sdiv b))"

definition ll_rem :: "int \<Rightarrow> int \<Rightarrow> fault + int" where
  "ll_rem a b =
     (if b = 0 then Inl DivisionByZero
      else if in_ll (a sdiv b) then Inr (a smod b) else Inl SignedOverflow)"

text \<open>\<^verbatim>\<open>num >> i\<close>: defined for a count from 0 to 63; arithmetic on a negative \<open>num\<close>.\<close>

definition ll_shr :: "int \<Rightarrow> int \<Rightarrow> fault + int" where
  "ll_shr num i = (if 0 \<le> i \<and> i < 64 then Inr (drop_bit (nat i) num) else Inl ShiftOutOfRange)"

text \<open>
  \<^verbatim>\<open>result << 1\<close>: since C++20 a left shift of a signed value is reduced modulo \<open>2^64\<close>
  into the signed range (the specification of the program describes the same: a token
  longer than the integer type silently wraps).
\<close>

definition ll_shl1 :: "int \<Rightarrow> int" where
  "ll_shl1 x = signed_take_bit 63 (push_bit 1 x)"

text \<open>The 32-bit \<^verbatim>\<open>int\<close> of \<^verbatim>\<open>longToBinary\<close>'s parameter \<^verbatim>\<open>bits\<close>.\<close>

definition INT_MIN :: int where
  "INT_MIN = - (2 ^ 31)"

text \<open>The conversion of \<^verbatim>\<open>token.length()\<close> (a \<^verbatim>\<open>size_t\<close>) to \<^verbatim>\<open>int\<close>: modulo \<open>2^32\<close>.\<close>

definition size_to_int :: "nat \<Rightarrow> int" where
  "size_to_int len = signed_take_bit 31 (int len)"

lemma and_then_cong [fundef_cong]:
  "r = r' \<Longrightarrow> (\<And>v. r' = Inr v \<Longrightarrow> f v = f' v) \<Longrightarrow> and_then r f = and_then r' f'"
  by (auto simp: and_then_def split: sum.splits)

section \<open>Number theory primitives\<close>

subsection \<open>isPrime\<close>

text \<open>
  \<^verbatim>\<open>for (long long i = 5; i * i <= n; i += 6)
      if (n % i == 0 || n % (i + 2) == 0) return false;
  return true;\<close>
\<close>

function isPrime_loop :: "int \<Rightarrow> int \<Rightarrow> fault + bool" where
  "isPrime_loop n i =
     and_then (ll_mul i i) (\<lambda>ii.
       if ii \<le> n then
         and_then (ll_rem n i) (\<lambda>r1.
           if r1 = 0 then Inr False
           else
             and_then (ll_add i 2) (\<lambda>i2.
             and_then (ll_rem n i2) (\<lambda>r2.
               if r2 = 0 then Inr False
               else and_then (ll_add i 6) (\<lambda>i'. isPrime_loop n i'))))
       else Inr True)"
  by pat_completeness auto

lemma ll_eq_InrD: "ll x = Inr v \<Longrightarrow> v = x"
  by (simp add: ll_def split: if_splits)

lemma self_le_square: "(i::int) \<le> i * i"
proof (cases "1 \<le> i")
  case True
  then have "i * 1 \<le> i * i" by (intro mult_left_mono) auto
  then show ?thesis by simp
next
  case False
  then have "i \<le> 0" by simp
  moreover have "0 \<le> i * i" by simp
  ultimately show ?thesis by linarith
qed

termination isPrime_loop
proof (relation "measure (\<lambda>(n, i). nat (n + 1 - i))", goal_cases)
  case 1
  show ?case by simp
next
  case (2 n i ii r1 i2 r2 i')
  have "ii = i * i" using 2 by (simp add: ll_mul_def ll_eq_InrD)
  moreover have "i' = i + 6" using 2 by (simp add: ll_add_def ll_eq_InrD)
  moreover have "i \<le> i * i" by (rule self_le_square)
  ultimately show ?case using 2 by simp
qed

declare isPrime_loop.simps [simp del]

definition isPrime :: "int \<Rightarrow> fault + bool" where
  "isPrime n =
     (if n \<le> 1 then Inr False
      else if n \<le> 3 then Inr True
      else if n smod 2 = 0 \<or> n smod 3 = 0 then Inr False
      else isPrime_loop n 5)"

subsection \<open>modInverse\<close>

text \<open>
  \<^verbatim>\<open>while (a > 1) { q = a / m; t = m; m = a % m; a = t;
                    t = x0; x0 = x1 - q * x0; x1 = t; }\<close>
\<close>

function modInverse_loop :: "int \<Rightarrow> int \<Rightarrow> int \<Rightarrow> int \<Rightarrow> fault + int" where
  "modInverse_loop a m x0 x1 =
     (if a > 1 then
        and_then (ll_div a m) (\<lambda>q.
        and_then (ll_rem a m) (\<lambda>m'.
        and_then (ll_mul q x0) (\<lambda>qx0.
        and_then (ll_sub x1 qx0) (\<lambda>x0'.
          modInverse_loop m m' x0' x0))))
      else Inr x1)"
  by pat_completeness auto

lemma abs_smod_less: "m \<noteq> 0 \<Longrightarrow> \<bar>a smod m\<bar> < \<bar>m\<bar>" for a m :: int
  by (simp add: smod_int_alt_def abs_mult abs_sgn_eq)

termination modInverse_loop
proof (relation "measure (\<lambda>(a, m, x0, x1). nat \<bar>m\<bar>)", goal_cases)
  case 1
  show ?case by simp
next
  case (2 a m x0 x1 q m' qx0 x0')
  have "m \<noteq> 0 \<and> m' = a smod m"
    using 2 by (auto simp: ll_rem_def split: if_splits)
  then show ?case using abs_smod_less [of m a] by simp
qed

declare modInverse_loop.simps [simp del]

definition modInverse :: "int \<Rightarrow> int \<Rightarrow> fault + int" where
  "modInverse a m =
     (if m = 1 then Inr 0
      else
        and_then (modInverse_loop a m 0 1) (\<lambda>x1.
          if x1 < 0 then ll_add x1 m else Inr x1))"

subsection \<open>modPow\<close>

text \<open>
  \<^verbatim>\<open>while (exp > 0) { if (exp & 1) result = (result * base) % mod;
                      base = (base * base) % mod; exp >>= 1; }\<close>
\<close>

function modPow_loop :: "int \<Rightarrow> int \<Rightarrow> int \<Rightarrow> int \<Rightarrow> fault + int" where
  "modPow_loop result base exp modulus =
     (if exp > 0 then
        and_then
          (if exp AND 1 \<noteq> 0
           then and_then (ll_mul result base) (\<lambda>rb. ll_rem rb modulus)
           else Inr result) (\<lambda>result'.
        and_then (ll_mul base base) (\<lambda>bb.
        and_then (ll_rem bb modulus) (\<lambda>base'.
          modPow_loop result' base' (drop_bit 1 exp) modulus)))
      else Inr result)"
  by pat_completeness auto

termination modPow_loop
proof (relation "measure (\<lambda>(result, base, exp, modulus). nat exp)", goal_cases)
  case 1
  show ?case by simp
next
  case (2 result base exp modulus result' bb base')
  then show ?case by (simp add: drop_bit_eq_div)
qed

declare modPow_loop.simps [simp del]

definition modPow :: "int \<Rightarrow> int \<Rightarrow> int \<Rightarrow> fault + int" where
  "modPow base exp modulus =
     and_then (ll_rem base modulus) (\<lambda>base'. modPow_loop 1 base' exp modulus)"

section \<open>Codec layer\<close>

text \<open>
  Whether \<^verbatim>\<open>char\<close> is signed is left to the implementation by C++; the functions that
  convert a \<^verbatim>\<open>char\<close> to a number take it as the parameter \<open>sc\<close> (\<open>True\<close>: signed, as
  on x86-64). A \<^typ>\<open>char\<close> of HOL is a byte.
\<close>

definition char_value :: "bool \<Rightarrow> char \<Rightarrow> int" where
  "char_value sc c =
     (if sc \<and> 128 \<le> (of_char c :: int) then of_char c - 256 else of_char c)"

text \<open>\<^verbatim>\<open>for (char bit : binary) result = (result << 1) | (bit - '0');\<close>\<close>

fun binaryToLong_loop :: "bool \<Rightarrow> string \<Rightarrow> int \<Rightarrow> int" where
  "binaryToLong_loop sc [] result = result"
| "binaryToLong_loop sc (b # binary) result =
     binaryToLong_loop sc binary
       (ll_shl1 result OR (char_value sc b - char_value sc CHR ''0''))"

definition binaryToLong :: "bool \<Rightarrow> string \<Rightarrow> int" where
  "binaryToLong sc binary = binaryToLong_loop sc binary 0"

text \<open>
  \<^verbatim>\<open>for (int i = bits - 1; i >= 0; --i) result += ((num >> i) & 1) ? '1' : '0';\<close>
\<close>

function longToBinary_loop :: "int \<Rightarrow> int \<Rightarrow> string \<Rightarrow> fault + string" where
  "longToBinary_loop num i result =
     (if i \<ge> 0 then
        and_then (ll_shr num i) (\<lambda>sh.
          longToBinary_loop num (i - 1)
            (result @ [if sh AND 1 \<noteq> 0 then CHR ''1'' else CHR ''0'']))
      else Inr result)"
  by pat_completeness auto

termination longToBinary_loop
  by (relation "measure (\<lambda>(num, i, result). nat (i + 1))") auto

declare longToBinary_loop.simps [simp del]

definition longToBinary :: "int \<Rightarrow> int \<Rightarrow> fault + string" where
  "longToBinary num bits =
     (if bits = INT_MIN then Inl SignedOverflow else longToBinary_loop num (bits - 1) [])"

section \<open>Strings and streams of the standard library\<close>

text \<open>\<^verbatim>\<open>std::isspace\<close> in the classic locale: space, and \<^verbatim>\<open>\t \n \v \f \r\<close>.\<close>

definition isspace :: "char \<Rightarrow> bool" where
  "isspace c = ((of_char c :: nat) = 32 \<or> (9 \<le> (of_char c :: nat) \<and> (of_char c :: nat) \<le> 13))"

definition isdigit :: "char \<Rightarrow> bool" where
  "isdigit c = (48 \<le> (of_char c :: nat) \<and> (of_char c :: nat) \<le> 57)"

text \<open>
  \<^verbatim>\<open>ss >> token\<close> on a \<^verbatim>\<open>std::stringstream\<close>: skip the leading whitespace, then read up
  to the next whitespace or the end. The stream is the text not yet read; \<open>None\<close> is
  the failed extraction that ends \<^verbatim>\<open>while (ss >> token)\<close>.
\<close>

definition extract_token :: "string \<Rightarrow> (string \<times> string) option" where
  "extract_token ss =
     (let rest = dropWhile isspace ss
      in if rest = [] then None
         else Some (takeWhile (\<lambda>c. \<not> isspace c) rest, dropWhile (\<lambda>c. \<not> isspace c) rest))"

lemma extract_shorter: "extract_token ss = Some (token, ss') \<Longrightarrow> length ss' < length ss"
proof -
  assume a: "extract_token ss = Some (token, ss')"
  define rest where "rest = dropWhile isspace ss"
  from a have ne: "rest \<noteq> []" and ss': "ss' = dropWhile (\<lambda>c. \<not> isspace c) rest"
    by (auto simp: extract_token_def rest_def Let_def split: if_splits)
  from ne have "\<not> isspace (hd rest)" unfolding rest_def by (rule hd_dropWhile)
  with ne have "length ss' < length rest"
    unfolding ss' by (cases rest) (auto intro: le_imp_less_Suc length_dropWhile_le)
  moreover have "length rest \<le> length ss" unfolding rest_def by (rule length_dropWhile_le)
  ultimately show ?thesis by simp
qed

text \<open>\<^verbatim>\<open>std::to_string(long long)\<close>: the decimal digits, after a minus sign if negative.\<close>

function digits_of :: "nat \<Rightarrow> string" where
  "digits_of x =
     (if x < 10 then [char_of (48 + x)]
      else digits_of (x div 10) @ [char_of (48 + x mod 10)])"
  by pat_completeness auto

termination digits_of
  by (relation "measure id") auto

declare digits_of.simps [simp del]

definition to_string :: "int \<Rightarrow> string" where
  "to_string x = (if x < 0 then CHR ''-'' # digits_of (nat (- x)) else digits_of (nat x))"

text \<open>
  \<^verbatim>\<open>std::stoll(token)\<close>, base 10: leading whitespace, an optional sign, then the longest
  run of digits; what follows is ignored. No digit: \<^verbatim>\<open>std::invalid_argument\<close>; a
  value outside \<^verbatim>\<open>long long\<close>: \<^verbatim>\<open>std::out_of_range\<close>.
\<close>

definition digits_value :: "string \<Rightarrow> int" where
  "digits_value ds = foldl (\<lambda>acc c. 10 * acc + (of_char c - 48)) 0 ds"

definition stoll :: "string \<Rightarrow> fault + int" where
  "stoll str =
     (let s1 = dropWhile isspace str;
          neg = (s1 \<noteq> [] \<and> hd s1 = CHR ''-'');
          s2 = (if s1 \<noteq> [] \<and> (hd s1 = CHR ''-'' \<or> hd s1 = CHR ''+'') then tl s1 else s1);
          ds = takeWhile isdigit s2
      in if ds = [] then Inl InvalidArgument
         else
           (let v = (if neg then - digits_value ds else digits_value ds)
            in if in_ll v then Inr v else Inl OutOfRange))"

section \<open>Key generator and cipher facade\<close>

text \<open>The members \<^verbatim>\<open>p, q, n, phi, e, d\<close> of \<^verbatim>\<open>class RSA\<close>.\<close>

record rsa =
  RSA_p :: int
  RSA_q :: int
  RSA_n :: int
  RSA_phi :: int
  RSA_e :: int
  RSA_d :: int

text \<open>
  \<^verbatim>\<open>generatePrime\<close> draws from \<^verbatim>\<open>std::uniform_int_distribution<long long>(100, 1000)\<close>
  until \<^verbatim>\<open>isPrime\<close> accepts: what it can return is any accepted number of that range.
\<close>

definition generatePrime_returns :: "int \<Rightarrow> bool" where
  "generatePrime_returns num = (100 \<le> num \<and> num \<le> 1000 \<and> isPrime num = Inr True)"

text \<open>The constructor \<^verbatim>\<open>RSA()\<close>, given the two results of \<^verbatim>\<open>generatePrime\<close>.\<close>

definition RSA_init :: "int \<Rightarrow> int \<Rightarrow> fault + rsa" where
  "RSA_init p q =
     and_then (ll_mul p q) (\<lambda>n.
     and_then (ll_sub p 1) (\<lambda>p1.
     and_then (ll_sub q 1) (\<lambda>q1.
     and_then (ll_mul p1 q1) (\<lambda>phi.
     and_then (modInverse 65537 phi) (\<lambda>d.
       Inr \<lparr>RSA_p = p, RSA_q = q, RSA_n = n, RSA_phi = phi, RSA_e = 65537, RSA_d = d\<rparr>)))))"

definition getPublicKey :: "rsa \<Rightarrow> int \<times> int" where
  "getPublicKey k = (RSA_e k, RSA_n k)"

definition getPrivateKey :: "rsa \<Rightarrow> int \<times> int" where
  "getPrivateKey k = (RSA_d k, RSA_n k)"

definition encrypt :: "rsa \<Rightarrow> int \<Rightarrow> fault + int" where
  "encrypt k message = modPow message (RSA_e k) (RSA_n k)"

definition decrypt :: "rsa \<Rightarrow> int \<Rightarrow> fault + int" where
  "decrypt k ciphertext = modPow ciphertext (RSA_d k) (RSA_n k)"

text \<open>
  \<^verbatim>\<open>for (char c : message) { long long m = static_cast<long long>(c);
    long long encrypted = encrypt(m); result += std::to_string(encrypted) + " "; }\<close>
\<close>

fun encryptString_loop :: "bool \<Rightarrow> rsa \<Rightarrow> string \<Rightarrow> string \<Rightarrow> fault + string" where
  "encryptString_loop sc k [] result = Inr result"
| "encryptString_loop sc k (c # message) result =
     and_then (encrypt k (char_value sc c)) (\<lambda>encrypted.
       encryptString_loop sc k message (result @ to_string encrypted @ '' ''))"

definition encryptString :: "bool \<Rightarrow> rsa \<Rightarrow> string \<Rightarrow> fault + string" where
  "encryptString sc k message = encryptString_loop sc k message []"

text \<open>
  \<^verbatim>\<open>while (ss >> token) { long long num = std::stoll(token);
    long long decrypted = decrypt(num); result += static_cast<char>(decrypted); }\<close>
  The conversion to \<^verbatim>\<open>char\<close> keeps the low byte.
\<close>

function decryptString_loop :: "rsa \<Rightarrow> string \<Rightarrow> string \<Rightarrow> fault + string" where
  "decryptString_loop k ss result =
     (case extract_token ss of
        None \<Rightarrow> Inr result
      | Some (token, ss') \<Rightarrow>
          and_then (stoll token) (\<lambda>num.
          and_then (decrypt k num) (\<lambda>decrypted.
            decryptString_loop k ss' (result @ [char_of decrypted]))))"
  by pat_completeness auto

termination decryptString_loop
  by (relation "measure (\<lambda>(k, ss, result). length ss)") (auto intro: extract_shorter)

declare decryptString_loop.simps [simp del]

definition decryptString :: "rsa \<Rightarrow> string \<Rightarrow> fault + string" where
  "decryptString k encrypted = decryptString_loop k encrypted []"

text \<open>
  \<^verbatim>\<open>while (ss >> token) { long long tokenValue = binaryToLong(token);
    long long encrypted = encrypt(tokenValue);
    std::string encryptedBinary = longToBinary(encrypted, token.length());
    result += encryptedBinary + " "; }\<close>
\<close>

function encryptHuffmanCodes_loop :: "bool \<Rightarrow> rsa \<Rightarrow> string \<Rightarrow> string \<Rightarrow> fault + string" where
  "encryptHuffmanCodes_loop sc k ss result =
     (case extract_token ss of
        None \<Rightarrow> Inr result
      | Some (token, ss') \<Rightarrow>
          and_then (encrypt k (binaryToLong sc token)) (\<lambda>encrypted.
          and_then (longToBinary encrypted (size_to_int (length token))) (\<lambda>encryptedBinary.
            encryptHuffmanCodes_loop sc k ss' (result @ encryptedBinary @ '' ''))))"
  by pat_completeness auto

termination encryptHuffmanCodes_loop
  by (relation "measure (\<lambda>(sc, k, ss, result). length ss)") (auto intro: extract_shorter)

declare encryptHuffmanCodes_loop.simps [simp del]

definition encryptHuffmanCodes :: "bool \<Rightarrow> rsa \<Rightarrow> string \<Rightarrow> fault + string" where
  "encryptHuffmanCodes sc k huffmanCodes = encryptHuffmanCodes_loop sc k huffmanCodes []"

function decryptHuffmanCodes_loop :: "bool \<Rightarrow> rsa \<Rightarrow> string \<Rightarrow> string \<Rightarrow> fault + string" where
  "decryptHuffmanCodes_loop sc k ss result =
     (case extract_token ss of
        None \<Rightarrow> Inr result
      | Some (token, ss') \<Rightarrow>
          and_then (decrypt k (binaryToLong sc token)) (\<lambda>decrypted.
          and_then (longToBinary decrypted (size_to_int (length token))) (\<lambda>decryptedBinary.
            decryptHuffmanCodes_loop sc k ss' (result @ decryptedBinary @ '' ''))))"
  by pat_completeness auto

termination decryptHuffmanCodes_loop
  by (relation "measure (\<lambda>(sc, k, ss, result). length ss)") (auto intro: extract_shorter)

declare decryptHuffmanCodes_loop.simps [simp del]

definition decryptHuffmanCodes :: "bool \<Rightarrow> rsa \<Rightarrow> string \<Rightarrow> fault + string" where
  "decryptHuffmanCodes sc k encrypted = decryptHuffmanCodes_loop sc k encrypted []"

section \<open>Reference notions\<close>

text \<open>
  Primality by trial division over every candidate divisor: the reference that
  \<^verbatim>\<open>isPrime\<close> is compared with, and the meaning of ``prime'' in the statements below.
\<close>

definition trial_division :: "int \<Rightarrow> bool" where
  "trial_division x = (2 \<le> x \<and> (\<forall>d\<in>{2..<x}. x mod d \<noteq> 0))"

text \<open>
  The tokens that the loop \<^verbatim>\<open>while (ss >> token)\<close> sees, in order, and the shape shared
  by the three loops of that form: each token contributes a piece of the result, and the
  first fault ends the run.
\<close>

function tokens :: "string \<Rightarrow> string list" where
  "tokens ss =
     (case extract_token ss of
        None \<Rightarrow> []
      | Some (token, ss') \<Rightarrow> token # tokens ss')"
  by pat_completeness auto

termination tokens
  by (relation "measure length") (auto intro: extract_shorter)

declare tokens.simps [simp del]

fun for_each :: "(string \<Rightarrow> fault + string) \<Rightarrow> string list \<Rightarrow> string \<Rightarrow> fault + string" where
  "for_each body [] result = Inr result"
| "for_each body (token # ts) result =
     and_then (body token) (\<lambda>piece. for_each body ts (result @ piece))"

text \<open>Tokens separated by single spaces.\<close>

fun join_spaces :: "string list \<Rightarrow> string" where
  "join_spaces [] = []"
| "join_spaces [t] = t"
| "join_spaces (t # ts) = t @ '' '' @ join_spaces ts"

text \<open>A token of the stream: not empty, and free of whitespace.\<close>

definition is_token :: "string \<Rightarrow> bool" where
  "is_token t = (t \<noteq> [] \<and> list_all (\<lambda>c. \<not> isspace c) t)"

text \<open>
  A string of binary digits and the integer it denotes, most significant digit first;
  a decimal integer as \<^verbatim>\<open>std::to_string\<close> prints it.
\<close>

definition is_binary :: "string \<Rightarrow> bool" where
  "is_binary bs = list_all (\<lambda>b. b = CHR ''0'' \<or> b = CHR ''1'') bs"

definition bin_value :: "string \<Rightarrow> int" where
  "bin_value bs = foldl (\<lambda>acc b. 2 * acc + (if b = CHR ''1'' then 1 else 0)) 0 bs"

definition is_decimal :: "string \<Rightarrow> bool" where
  "is_decimal s =
     (case s of
        [] \<Rightarrow> False
      | c # r \<Rightarrow> if c = CHR ''-'' then r \<noteq> [] \<and> list_all isdigit r else list_all isdigit s)"

text \<open>The \<open>w\<close> low bits of \<open>v\<close> in two's complement, most significant first.\<close>

definition binary_digits :: "int \<Rightarrow> nat \<Rightarrow> string" where
  "binary_digits v w = map (\<lambda>j. if bit v j then CHR ''1'' else CHR ''0'') (rev [0..<w])"

section \<open>Checked arithmetic\<close>

lemma and_then_Inr [simp]: "and_then (Inr v) f = f v"
  by (simp add: and_then_def)

lemma and_then_Inl [simp]: "and_then (Inl err) f = Inl err"
  by (simp add: and_then_def)

lemma ll_in [simp]: "in_ll x \<Longrightarrow> ll x = Inr x"
  by (simp add: ll_def)

lemma in_ll_abs: "\<bar>x\<bar> \<le> LLONG_MAX \<Longrightarrow> in_ll x"
  by (auto simp: in_ll_def LLONG_MIN_def LLONG_MAX_def)

lemma in_ll_sdiv: "\<bar>x\<bar> \<le> LLONG_MAX \<Longrightarrow> in_ll (x sdiv y)"
  using sdiv_int_range [of x y] by (intro in_ll_abs) auto

lemma ll_rem_in: "b \<noteq> 0 \<Longrightarrow> \<bar>a\<bar> \<le> LLONG_MAX \<Longrightarrow> ll_rem a b = Inr (a smod b)"
  by (simp add: ll_rem_def in_ll_sdiv)

lemma smod_mult_left: "(x smod M * y) smod M = (x * y) smod M" for x y M :: int
proof (cases "\<bar>x\<bar> mod \<bar>M\<bar> = 0")
  case True
  then have "(\<bar>x\<bar> * \<bar>y\<bar>) mod \<bar>M\<bar> = 0" by (simp add: mod_mult_left_eq mod_eq_0_iff_dvd)
  with True show ?thesis by (simp add: smod_int_alt_def abs_mult)
next
  case False
  have "0 \<le> \<bar>x\<bar> mod \<bar>M\<bar>" by (cases "M = 0") simp_all
  with False have c: "0 < \<bar>x\<bar> mod \<bar>M\<bar>" by simp
  have x: "x \<noteq> 0" using False by auto
  have "\<bar>sgn x * (\<bar>x\<bar> mod \<bar>M\<bar>) * y\<bar> mod \<bar>M\<bar> = (\<bar>x\<bar> * \<bar>y\<bar>) mod \<bar>M\<bar>"
    using c x by (simp add: abs_mult abs_sgn_eq mod_mult_left_eq)
  moreover have "sgn (sgn x * (\<bar>x\<bar> mod \<bar>M\<bar>) * y) = sgn (x * y)"
    using c by (simp add: sgn_mult)
  ultimately show ?thesis by (simp add: smod_int_alt_def abs_mult)
qed

lemma smod_mult_right: "(x * (y smod M)) smod M = (x * y) smod M" for x y M :: int
  using smod_mult_left [of y M x] by (simp add: mult.commute)

lemma smod_power: "((x smod M) ^ k) smod M = (x ^ k) smod M" for x M :: int
proof (induction k)
  case 0
  show ?case by simp
next
  case (Suc k)
  have "((x smod M) ^ Suc k) smod M = (x smod M * (x smod M) ^ k) smod M" by simp
  also have "\<dots> = (x * (x smod M) ^ k) smod M" by (rule smod_mult_left)
  also have "\<dots> = (x * ((x smod M) ^ k smod M)) smod M" by (rule smod_mult_right [symmetric])
  also have "\<dots> = (x * (x ^ k smod M)) smod M" by (simp only: Suc)
  also have "\<dots> = (x * x ^ k) smod M" by (rule smod_mult_right)
  finally show ?case by simp
qed

lemma smod_mult_power: "(x * (y smod M) ^ k) smod M = (x * y ^ k) smod M" for x y M :: int
proof -
  have "(x * (y smod M) ^ k) smod M = (x * ((y smod M) ^ k smod M)) smod M"
    by (rule smod_mult_right [symmetric])
  also have "\<dots> = (x * (y ^ k smod M)) smod M" by (simp only: smod_power)
  also have "\<dots> = (x * y ^ k) smod M" by (rule smod_mult_right)
  finally show ?thesis .
qed


section \<open>Fermat's little theorem and the RSA identity\<close>

lemma trial_division_dvd:
  assumes "trial_division p" "d dvd p" "0 < d"
  shows "d = 1 \<or> d = p"
proof (rule ccontr)
  assume n: "\<not> (d = 1 \<or> d = p)"
  have "0 < p" using assms(1) by (simp add: trial_division_def)
  with assms(2) have "d \<le> p" by (rule zdvd_imp_le)
  with n assms(3) have "d \<in> {2..<p}" by simp
  with assms(1) have "p mod d \<noteq> 0" by (simp add: trial_division_def)
  with assms(2) show False by (simp add: dvd_eq_mod_eq_0)
qed

lemma trial_division_coprime:
  assumes "trial_division p" "\<not> p dvd a"
  shows "coprime p a"
proof -
  have "gcd p a dvd p" by simp
  moreover have "0 < gcd p a" using assms(1) by (simp add: trial_division_def gcd_pos_int)
  ultimately have "gcd p a = 1 \<or> gcd p a = p"
    using trial_division_dvd [OF assms(1)] by blast
  moreover have "gcd p a \<noteq> p"
  proof
    assume "gcd p a = p"
    then have "p dvd a" by (metis gcd_dvd2)
    with assms(2) show False by simp
  qed
  ultimately show ?thesis by (simp add: coprime_iff_gcd_eq_1)
qed

lemma trial_division_dvd_mult:
  assumes "trial_division p" "p dvd a * b"
  shows "p dvd a \<or> p dvd b"
proof (cases "p dvd a")
  case False
  then have "coprime p a" by (rule trial_division_coprime [OF assms(1)])
  then show ?thesis using assms(2) by (simp add: coprime_dvd_mult_right_iff)
qed simp

lemma prime_dvd_choose:
  assumes "trial_division (int p)" "0 < k" "k < p"
  shows "int p dvd int (p choose k)"
proof -
  obtain j where j: "k = Suc j" using assms(2) by (cases k) auto
  have "Suc j * (p choose Suc j) = p * ((p - 1) choose j)"
    by (rule binomial_absorption)
  then have "int p dvd int k * int (p choose k)"
    unfolding j by (metis dvd_triv_left of_nat_mult)
  moreover have "\<not> int p dvd int k"
    using assms(2,3) by (auto dest: zdvd_imp_le)
  ultimately show ?thesis
    using trial_division_dvd_mult [OF assms(1)] by blast
qed

lemma fermat_step:
  fixes a :: int
  assumes "trial_division (int p)"
  shows "int p dvd ((a + 1) ^ p - a ^ p - 1)"
proof -
  have p: "1 < p" using assms by (simp add: trial_division_def)
  have "(a + 1) ^ p = (\<Sum>k\<le>p. of_nat (p choose k) * a ^ k * 1 ^ (p - k))"
    by (rule binomial_ring)
  also have "\<dots> = (\<Sum>k\<in>{0..p}. int (p choose k) * a ^ k)"
    by (simp add: atMost_atLeast0)
  also have "{0..p} = insert 0 (insert p {1..<p})" using p by auto
  also have "(\<Sum>k\<in>insert 0 (insert p {1..<p}). int (p choose k) * a ^ k)
      = 1 + a ^ p + (\<Sum>k\<in>{1..<p}. int (p choose k) * a ^ k)"
    using p by simp
  finally have "(a + 1) ^ p - a ^ p - 1 = (\<Sum>k\<in>{1..<p}. int (p choose k) * a ^ k)"
    by simp
  moreover have "int p dvd (\<Sum>k\<in>{1..<p}. int (p choose k) * a ^ k)"
    by (rule dvd_sum) (auto intro!: dvd_mult2 prime_dvd_choose [OF assms])
  ultimately show ?thesis by simp
qed

lemma fermat_nat:
  assumes "trial_division (int p)"
  shows "int p dvd (int a ^ p - int a)"
proof (induction a)
  case 0
  have "0 < p" using assms by (simp add: trial_division_def)
  then show ?case by (simp add: power_0_left)
next
  case (Suc a)
  have e: "int (Suc a) ^ p - int (Suc a)
      = ((int a + 1) ^ p - int a ^ p - 1) + (int a ^ p - int a)"
    by (simp add: algebra_simps)
  have "int p dvd ((int a + 1) ^ p - int a ^ p - 1) + (int a ^ p - int a)"
    by (rule dvd_add [OF fermat_step [OF assms] Suc])
  then show ?case by (simp only: e)
qed

lemma fermat_little:
  assumes "trial_division p" "0 \<le> a" "\<not> p dvd a"
  shows "p dvd (a ^ nat (p - 1) - 1)"
proof -
  have p: "1 < p" using assms(1) by (simp add: trial_division_def)
  have "int (nat p) dvd (int (nat a) ^ nat p - int (nat a))"
    by (rule fermat_nat) (use p assms(1) in simp)
  then have "p dvd (a ^ nat p - a)" using p assms(2) by simp
  moreover have "nat p = Suc (nat (p - 1))" using p by simp
  ultimately have "p dvd a * (a ^ nat (p - 1) - 1)"
    by (simp add: algebra_simps)
  then show ?thesis using trial_division_dvd_mult [OF assms(1)] assms(3) by blast
qed

lemma dvd_power_minus_one:
  fixes x :: int
  assumes "p dvd (x - 1)"
  shows "p dvd (x ^ k - 1)"
proof (induction k)
  case 0
  show ?case by simp
next
  case (Suc k)
  have e: "x ^ Suc k - 1 = x * (x ^ k - 1) + (x - 1)" by (simp add: algebra_simps)
  have "p dvd x * (x ^ k - 1) + (x - 1)"
    by (rule dvd_add [OF dvd_mult [OF Suc] assms])
  then show ?case by (simp only: e)
qed

lemma fermat_power:
  assumes "trial_division p" "0 \<le> a"
  shows "p dvd (a ^ (1 + k * nat (p - 1)) - a)"
proof (cases "p dvd a")
  case True
  then show ?thesis by simp
next
  case False
  have "p dvd (a ^ nat (p - 1) - 1)" by (rule fermat_little [OF assms False])
  then have "p dvd ((a ^ nat (p - 1)) ^ k - 1)" by (rule dvd_power_minus_one)
  then have "p dvd a * ((a ^ nat (p - 1)) ^ k - 1)" by (rule dvd_mult)
  moreover have "a ^ (1 + k * nat (p - 1)) = a ^ 1 * a ^ (nat (p - 1) * k)"
    by (simp only: power_add mult.commute [of k])
  then have "a ^ (1 + k * nat (p - 1)) = a * (a ^ nat (p - 1)) ^ k"
    by (simp only: power_mult power_one_right)
  then have "a ^ (1 + k * nat (p - 1)) - a = a * ((a ^ nat (p - 1)) ^ k - 1)"
    by (simp add: right_diff_distrib)
  ultimately show ?thesis by simp
qed

lemma trial_division_distinct_coprime:
  assumes "trial_division p" "trial_division q" "p \<noteq> q"
  shows "coprime p q"
proof (rule trial_division_coprime [OF assms(1)])
  show "\<not> p dvd q"
  proof
    assume "p dvd q"
    moreover have "0 < p" using assms(1) by (simp add: trial_division_def)
    ultimately have "p = 1 \<or> p = q" by (rule trial_division_dvd [OF assms(2)])
    then show False using assms(1,3) by (auto simp: trial_division_def)
  qed
qed

text \<open>Correctness of RSA for two distinct primes.\<close>

lemma rsa_power:
  assumes p: "trial_division p" and q: "trial_division q" and pq: "p \<noteq> q"
    and ed: "int ed mod ((p - 1) * (q - 1)) = 1" and m: "0 \<le> m"
  shows "m ^ ed mod (p * q) = m mod (p * q)"
proof -
  have p1: "1 < p" and q1: "1 < q" using p q by (simp_all add: trial_division_def)
  define k where "k = nat (int ed div ((p - 1) * (q - 1)))"
  have phi: "0 < (p - 1) * (q - 1)" using p1 q1 by simp
  have "int ed = int ed div ((p - 1) * (q - 1)) * ((p - 1) * (q - 1)) + 1"
    using ed by (metis div_mult_mod_eq)
  moreover have "0 \<le> int ed div ((p - 1) * (q - 1))"
    using phi by (simp add: pos_imp_zdiv_nonneg_iff)
  ultimately have "int ed = int (1 + k * (nat (p - 1) * nat (q - 1)))"
    using p1 q1 by (simp add: k_def nat_mult_distrib)
  then have e: "ed = 1 + k * (nat (p - 1) * nat (q - 1))" by (simp only: of_nat_eq_iff)
  have "p dvd (m ^ (1 + (k * nat (q - 1)) * nat (p - 1)) - m)"
    by (rule fermat_power [OF p m])
  then have dp: "p dvd (m ^ ed - m)" by (simp add: e mult_ac)
  have "q dvd (m ^ (1 + (k * nat (p - 1)) * nat (q - 1)) - m)"
    by (rule fermat_power [OF q m])
  then have dq: "q dvd (m ^ ed - m)" by (simp add: e mult_ac)
  have "coprime p q" by (rule trial_division_distinct_coprime [OF p q pq])
  with dp dq have "p * q dvd (m ^ ed - m)" by (rule divides_mult)
  then show ?thesis by (simp add: mod_eq_dvd_iff)
qed

section \<open>Correctness of modPow\<close>

lemma and_one_odd: "(e::int) AND 1 \<noteq> 0 \<longleftrightarrow> odd e"
  by (simp add: and_one_eq odd_iff_mod_2_eq_one)

lemma nat_odd_half:
  assumes "odd (e::int)" "e > 0"
  shows "nat e = Suc (2 * nat (e div 2))"
proof -
  from assms obtain k where k: "e = 2 * k + 1" by (auto elim: oddE)
  with \<open>e > 0\<close> have "0 \<le> k" by simp
  then show ?thesis by (simp add: k nat_add_distrib nat_mult_distrib)
qed

lemma nat_even_half:
  assumes "even (e::int)" "e > 0"
  shows "nat e = 2 * nat (e div 2)"
proof -
  from assms obtain k where k: "e = 2 * k" by (auto elim: evenE)
  with \<open>e > 0\<close> have "0 \<le> k" by simp
  then show ?thesis by (simp add: k nat_mult_distrib)
qed

lemma mult_bound:
  fixes x y M :: int
  assumes "\<bar>x\<bar> < M" "\<bar>y\<bar> < M" "(M - 1) * (M - 1) \<le> LLONG_MAX"
  shows "\<bar>x * y\<bar> \<le> LLONG_MAX"
proof -
  have "\<bar>x\<bar> * \<bar>y\<bar> \<le> (M - 1) * (M - 1)"
    using assms(1,2) by (intro mult_mono) auto
  then show ?thesis using assms(3) by (simp add: abs_mult)
qed

lemma modPow_loop_correct:
  "1 < M \<Longrightarrow> (M - 1) * (M - 1) \<le> LLONG_MAX \<Longrightarrow> \<bar>r\<bar> < M \<Longrightarrow> \<bar>b\<bar> < M \<Longrightarrow>
   modPow_loop r b e M = Inr ((r * b ^ nat e) smod M)"
proof (induction r b e M rule: modPow_loop.induct)
  case (1 result base exp modulus)
  note M = \<open>1 < modulus\<close> and MM = \<open>(modulus - 1) * (modulus - 1) \<le> LLONG_MAX\<close>
  show ?case
  proof (cases "exp > 0")
    case False
    then have "nat exp = 0" by simp
    moreover have "result smod modulus = result"
      using 1(4) by (simp add: smod_int_alt_def sgn_mult_abs)
    ultimately show ?thesis using False by (subst modPow_loop.simps) simp
  next
    case True
    have rb: "\<bar>result * base\<bar> \<le> LLONG_MAX" by (rule mult_bound [OF 1(4) 1(5) MM])
    have bb: "\<bar>base * base\<bar> \<le> LLONG_MAX" by (rule mult_bound [OF 1(5) 1(5) MM])
    define result' where "result' = (if exp AND 1 \<noteq> 0 then (result * base) smod modulus else result)"
    define base' where "base' = (base * base) smod modulus"
    have r': "(if exp AND 1 \<noteq> 0 then and_then (ll_mul result base) (\<lambda>rb. ll_rem rb modulus) else Inr result)
        = Inr result'"
      using rb M by (simp add: result'_def ll_mul_def in_ll_abs ll_rem_in)
    have b1: "ll_mul base base = Inr (base * base)" using bb by (simp add: ll_mul_def in_ll_abs)
    have b2: "ll_rem (base * base) modulus = Inr base'" using bb M by (simp add: base'_def ll_rem_in)
    have ar: "\<bar>result'\<bar> < modulus"
      using 1(4) M abs_smod_less [of modulus "result * base"] by (simp add: result'_def)
    have ab: "\<bar>base'\<bar> < modulus"
      using M abs_smod_less [of modulus "base * base"] by (simp add: base'_def)
    have IH: "modPow_loop result' base' (drop_bit 1 exp) modulus
        = Inr ((result' * base' ^ nat (drop_bit 1 exp)) smod modulus)"
      by (rule 1(1) [OF True r' b1 b2 M MM ar ab])
    have step: "modPow_loop result base exp modulus = modPow_loop result' base' (drop_bit 1 exp) modulus"
      using True r' b1 b2 by (subst modPow_loop.simps) simp
    have e2: "drop_bit 1 exp = exp div 2" by (simp add: drop_bit_eq_div)
    have pw: "(result' * base' ^ nat (exp div 2)) smod modulus = (result * base ^ nat exp) smod modulus"
    proof (cases "exp AND 1 \<noteq> 0")
      case True
      then have "odd exp" by (simp add: and_one_odd)
      then have e: "nat exp = Suc (2 * nat (exp div 2))"
        using \<open>exp > 0\<close> by (rule nat_odd_half)
      have "(result' * base' ^ nat (exp div 2)) smod modulus
          = ((result * base) smod modulus * base' ^ nat (exp div 2)) smod modulus"
        using True by (simp add: result'_def)
      also have "\<dots> = (result * base * base' ^ nat (exp div 2)) smod modulus"
        by (rule smod_mult_left)
      also have "\<dots> = (result * base * (base * base) ^ nat (exp div 2)) smod modulus"
        unfolding base'_def by (rule smod_mult_power)
      also have "result * base * (base * base) ^ nat (exp div 2) = result * base ^ nat exp"
        by (simp add: e power_mult power2_eq_square)
      finally show ?thesis .
    next
      case False
      then have "even exp" by (simp add: and_one_odd)
      then have e: "nat exp = 2 * nat (exp div 2)"
        using \<open>exp > 0\<close> by (rule nat_even_half)
      have "(result' * base' ^ nat (exp div 2)) smod modulus
          = (result * base' ^ nat (exp div 2)) smod modulus"
        using False by (simp add: result'_def)
      also have "\<dots> = (result * (base * base) ^ nat (exp div 2)) smod modulus"
        unfolding base'_def by (rule smod_mult_power)
      also have "result * (base * base) ^ nat (exp div 2) = result * base ^ nat exp"
        by (simp add: e power_mult power2_eq_square)
      finally show ?thesis .
    qed
    note step
    also note IH
    also have "Inr ((result' * base' ^ nat (drop_bit 1 exp)) smod modulus)
        = (Inr ((result * base ^ nat exp) smod modulus) :: fault + int)"
      by (simp only: e2 pw)
    finally show ?thesis .
  qed
qed

section \<open>Correctness of modInverse\<close>

lemma abs_diff_opposite:
  fixes x u :: int
  assumes "x * u \<le> 0"
  shows "\<bar>x - u\<bar> = \<bar>x\<bar> + \<bar>u\<bar>"
proof -
  from assms have "(0 \<le> x \<and> u \<le> 0) \<or> (x \<le> 0 \<and> 0 \<le> u)"
    by (simp add: mult_le_0_iff)
  then show ?thesis by auto
qed

lemma modInverse_loop_inv:
  "0 < m0 \<Longrightarrow> m0 \<le> LLONG_MAX \<Longrightarrow> 1 \<le> a \<Longrightarrow> a \<le> LLONG_MAX \<Longrightarrow> 0 \<le> m \<Longrightarrow> m \<le> LLONG_MAX \<Longrightarrow>
   \<bar>x1\<bar> * m + \<bar>x0\<bar> * a = m0 \<Longrightarrow> x0 * x1 \<le> 0 \<Longrightarrow> \<bar>x1\<bar> < m0 \<Longrightarrow>
   m0 dvd (a0 * x1 - a) \<Longrightarrow> m0 dvd (a0 * x0 - m) \<Longrightarrow>
   (if gcd a m = 1
    then \<exists>r. modInverse_loop a m x0 x1 = Inr r \<and> \<bar>r\<bar> < m0 \<and> m0 dvd (a0 * r - 1)
    else modInverse_loop a m x0 x1 = Inl DivisionByZero)"
proof (induction a m x0 x1 rule: modInverse_loop.induct)
  case (1 a m x0 x1)
  note m0 = \<open>0 < m0\<close> \<open>m0 \<le> LLONG_MAX\<close>
  show ?case
  proof (cases "a > 1")
    case False
    with 1 have "a = 1" by simp
    then show ?thesis using 1 by (subst modInverse_loop.simps) simp
  next
    case a: True
    show ?thesis
    proof (cases "m = 0")
      case True
      then have "modInverse_loop a m x0 x1 = Inl DivisionByZero"
        using a by (subst modInverse_loop.simps) (simp add: ll_div_def)
      moreover have "gcd a m \<noteq> 1" using True a by simp
      ultimately show ?thesis by simp
    next
      case False
      with 1 have m: "0 < m" by simp
      define q where "q = a div m"
      define m' where "m' = a mod m"
      define x0' where "x0' = x1 - q * x0"
      have q0: "0 \<le> q" using a m by (simp add: q_def pos_imp_zdiv_nonneg_iff)
      have qa: "q \<le> a" using a m unfolding q_def
        by (metis div_by_1 int_one_le_iff_zero_less zdiv_mono2 less_imp_le order_less_le_trans zero_less_one)
      have sd: "a sdiv m = q" using a m by (simp add: q_def signed_divide_int_def sgn_if)
      have sm: "a smod m = m'" using a m by (simp add: m'_def smod_int_alt_def sgn_if)
      have opp: "x1 * (q * x0) \<le> 0"
      proof -
        have "q * (x0 * x1) \<le> 0" using q0 1(9) by (rule mult_nonneg_nonpos)
        then show ?thesis by (simp add: mult_ac)
      qed
      have ax0': "\<bar>x0'\<bar> = \<bar>x1\<bar> + q * \<bar>x0\<bar>"
        unfolding x0'_def using abs_diff_opposite [OF opp] q0 by (simp add: abs_mult)
      have am: "a = q * m + m'" by (simp add: q_def m'_def)
      have inv: "\<bar>x0\<bar> * m' + \<bar>x0'\<bar> * m = m0"
      proof -
        have "\<bar>x0\<bar> * m' + \<bar>x0'\<bar> * m = \<bar>x1\<bar> * m + \<bar>x0\<bar> * (q * m + m')"
          by (simp add: ax0' algebra_simps)
        then show ?thesis using 1(8) am by simp
      qed
      have m'0: "0 \<le> m'" and m'm: "m' < m" using m by (simp_all add: m'_def)
      have x0'b: "\<bar>x0'\<bar> \<le> m0"
      proof -
        have "\<bar>x0'\<bar> * 1 \<le> \<bar>x0'\<bar> * m" using m by (intro mult_left_mono) auto
        moreover have "0 \<le> \<bar>x0\<bar> * m'" using m'0 by simp
        ultimately show ?thesis using inv by linarith
      qed
      have qx0b: "\<bar>q * x0\<bar> \<le> m0"
        using x0'b ax0' q0 by (simp add: abs_mult)
      have x0b: "\<bar>x0\<bar> < m0"
      proof -
        have "\<bar>x0\<bar> * 2 \<le> \<bar>x0\<bar> * a" using a by (intro mult_left_mono) auto
        moreover have "0 \<le> \<bar>x1\<bar> * m" using m by simp
        ultimately show ?thesis using 1(8) m0 by linarith
      qed
      have c1: "ll_div a m = Inr q"
        using m q0 qa 1(5) by (simp add: ll_div_def sd in_ll_abs)
      have c2: "ll_rem a m = Inr m'"
        using m a 1(5) sm by (simp add: ll_rem_in)
      have c3: "ll_mul q x0 = Inr (q * x0)"
        using qx0b m0 by (simp add: ll_mul_def in_ll_abs)
      have c4: "ll_sub x1 (q * x0) = Inr x0'"
        using x0'b m0 by (simp add: ll_sub_def x0'_def in_ll_abs)
      have step: "modInverse_loop a m x0 x1 = modInverse_loop m m' x0' x0"
        using a c1 c2 c3 c4 by (subst modInverse_loop.simps) simp
      have g: "gcd m m' = gcd a m"
        unfolding m'_def by (metis gcd.commute gcd_red_int)
      have d1: "m0 dvd (a0 * x0' - m')"
      proof -
        have "a0 * x0' - m' = (a0 * x1 - a) - q * (a0 * x0 - m)"
          by (simp add: x0'_def am algebra_simps)
        then show ?thesis using 1(11) 1(12) by simp
      qed
      have sgn': "x0' * x0 \<le> 0"
      proof -
        have "x0' * x0 = x0 * x1 - q * (x0 * x0)" by (simp add: x0'_def algebra_simps)
        moreover have "0 \<le> q * (x0 * x0)" using q0 by simp
        ultimately show ?thesis using 1(9) by linarith
      qed
      have IH: "if gcd m m' = 1
        then \<exists>r. modInverse_loop m m' x0' x0 = Inr r \<and> \<bar>r\<bar> < m0 \<and> m0 dvd (a0 * r - 1)
        else modInverse_loop m m' x0' x0 = Inl DivisionByZero"
        using m m'0 m'm 1(7) inv sgn' x0b 1(12) d1
        by (intro 1(1) [OF a c1 c2 c3 c4 m0]) auto
      show ?thesis using IH by (simp only: step g)
    qed
  qed
qed

lemma modInverse_coprime:
  assumes a: "1 \<le> a" "a \<le> LLONG_MAX" and m: "1 < m" "m \<le> LLONG_MAX" and g: "gcd a m = 1"
  shows "\<exists>r. modInverse a m = Inr r \<and> 0 \<le> r \<and> r < m \<and> (a * r) mod m = 1"
proof -
  have "if gcd a m = 1
    then \<exists>r. modInverse_loop a m 0 1 = Inr r \<and> \<bar>r\<bar> < m \<and> m dvd (a * r - 1)
    else modInverse_loop a m 0 1 = Inl DivisionByZero"
    using a m by (intro modInverse_loop_inv) auto
  with g obtain r where r: "modInverse_loop a m 0 1 = Inr r" "\<bar>r\<bar> < m" "m dvd (a * r - 1)"
    by auto
  define r' where "r' = (if r < 0 then r + m else r)"
  have "modInverse a m = Inr r'"
    using m r(1,2) by (simp add: modInverse_def r'_def ll_add_def in_ll_abs)
  moreover have "0 \<le> r'" "r' < m" using r(2) by (auto simp: r'_def)
  moreover have "m dvd (a * r' - 1)"
  proof (cases "r < 0")
    case True
    have e: "a * (r + m) - 1 = (a * r - 1) + a * m" by (simp add: algebra_simps)
    have "m dvd (a * r - 1) + a * m" by (rule dvd_add [OF r(3)]) simp
    then have "m dvd a * (r + m) - 1" by (simp only: e)
    then show ?thesis using True by (simp add: r'_def)
  next
    case False
    then show ?thesis using r(3) by (simp add: r'_def)
  qed
  then have "(a * r') mod m = 1 mod m" by (simp add: mod_eq_dvd_iff)
  ultimately show ?thesis using m by auto
qed

lemma modInverse_not_coprime:
  assumes a: "1 < a" "a \<le> LLONG_MAX" and m: "0 \<le> m" "m \<le> LLONG_MAX" and g: "gcd a m \<noteq> 1"
  shows "modInverse a m = Inl DivisionByZero"
proof (cases "m = 0")
  case True
  then have "modInverse_loop a m 0 1 = Inl DivisionByZero"
    using a by (subst modInverse_loop.simps) (simp add: ll_div_def)
  then show ?thesis using True by (simp add: modInverse_def)
next
  case False
  moreover have "m \<noteq> 1" using g by auto
  ultimately have m1: "1 < m" using m by simp
  have "if gcd a m = 1
    then \<exists>r. modInverse_loop a m 0 1 = Inr r \<and> \<bar>r\<bar> < m \<and> m dvd (a * r - 1)
    else modInverse_loop a m 0 1 = Inl DivisionByZero"
    using a m m1 by (intro modInverse_loop_inv) auto
  with g have "modInverse_loop a m 0 1 = Inl DivisionByZero" by simp
  then show ?thesis using m1 by (simp add: modInverse_def)
qed

lemma modInverse_small:
  assumes "a \<le> 1" "m \<noteq> 1"
  shows "modInverse a m = Inr 1"
proof -
  have "modInverse_loop a m 0 1 = Inr 1"
    using assms(1) by (subst modInverse_loop.simps) simp
  then show ?thesis using assms(2) by (simp add: modInverse_def)
qed

lemma modInverse_negative_modulus:
  assumes a: "1 < a" "a \<le> LLONG_MAX" and m: "m < 0"
  shows "modInverse a m = Inr 0"
proof -
  have "\<bar>a sdiv m\<bar> \<le> \<bar>a\<bar>" using sdiv_int_range [of a m] by auto
  then have c1: "ll_div a m = Inr (a sdiv m)"
    using a m by (simp add: ll_div_def in_ll_abs)
  have c2: "ll_rem a m = Inr (a smod m)"
    using a m by (simp add: ll_rem_in)
  have "modInverse_loop a m 0 1 = modInverse_loop m (a smod m) 1 0"
    using a c1 c2 by (subst modInverse_loop.simps) (simp add: ll_mul_def ll_sub_def in_ll_def LLONG_MIN_def LLONG_MAX_def)
  also have "\<dots> = Inr 0"
    using m by (subst modInverse_loop.simps) simp
  finally show ?thesis using m by (simp add: modInverse_def)
qed

lemma modInverse_cases:
  assumes "in_ll a" "in_ll m"
  shows "(modInverse a m = Inl DivisionByZero \<longleftrightarrow> 1 < a \<and> 0 \<le> m \<and> gcd a m \<noteq> 1)
    \<and> ((\<exists>r. modInverse a m = Inr r) \<longleftrightarrow> \<not> (1 < a \<and> 0 \<le> m \<and> gcd a m \<noteq> 1))"
proof -
  have aM: "a \<le> LLONG_MAX" and mM: "m \<le> LLONG_MAX" using assms by (simp_all add: in_ll_def)
  consider (one) "m = 1" | (small) "a \<le> 1" "m \<noteq> 1" | (neg) "1 < a" "m < 0"
    | (bad) "1 < a" "0 \<le> m" "gcd a m \<noteq> 1" | (good) "1 < a" "1 < m" "gcd a m = 1"
  proof -
    have "1 < m" if "1 < a" "0 \<le> m" "gcd a m = 1" "m \<noteq> 1"
    proof -
      have "m \<noteq> 0" using that by auto
      then show ?thesis using that by simp
    qed
    then show ?thesis using that by fastforce
  qed
  then show ?thesis
  proof cases
    case one
    then show ?thesis by (simp add: modInverse_def)
  next
    case small
    then show ?thesis by (simp add: modInverse_small)
  next
    case neg
    then show ?thesis using modInverse_negative_modulus [OF neg(1) aM neg(2)] by simp
  next
    case bad
    then show ?thesis using modInverse_not_coprime [OF bad(1) aM bad(2) mM bad(3)] by simp
  next
    case good
    then show ?thesis using modInverse_coprime [OF _ aM good(2) mM good(3)] by auto
  qed
qed

section \<open>Correctness of isPrime\<close>

lemma no_small_divisor_prime:
  assumes n: "2 \<le> n" and i: "n < i * i" "0 \<le> i"
    and inv: "\<forall>d. 2 \<le> d \<and> d < i \<longrightarrow> \<not> d dvd n"
  shows "trial_division n"
  unfolding trial_division_def
proof (intro conjI ballI notI)
  show "2 \<le> n" by (rule n)
next
  fix d assume d: "d \<in> {2..<n}" and "n mod d = 0"
  then have "d dvd n" by (simp add: dvd_eq_mod_eq_0)
  then obtain k where k: "n = d * k" by (auto simp: dvd_def)
  have "0 < d * k" using k n by simp
  moreover have "0 < d" using d by simp
  ultimately have kpos: "0 < k" by (rule zero_less_mult_pos)
  have "k \<noteq> 1" using k d by auto
  with kpos have k2: "2 \<le> k" by simp
  have "k dvd n" by (simp add: k)
  have "\<not> d < i" using inv d \<open>d dvd n\<close> by auto
  moreover have "\<not> k < i" using inv k2 \<open>k dvd n\<close> by auto
  ultimately have "i * i \<le> d * k" using i(2) by (intro mult_mono) auto
  with i(1) k show False by simp
qed

lemma divisor_not_prime:
  assumes "d dvd n" "2 \<le> d" "d < n"
  shows "\<not> trial_division n"
  using assms by (auto simp: trial_division_def dvd_eq_mod_eq_0)

lemma smod_pos: "0 \<le> a \<Longrightarrow> 0 < b \<Longrightarrow> a smod b = a mod b" for a b :: int
  by (simp add: smod_int_alt_def sgn_if)

lemma stride_invariant:
  fixes i n :: int
  assumes inv: "\<forall>d. 2 \<le> d \<and> d < i \<longrightarrow> \<not> d dvd n" and i: "5 \<le> i" "i mod 6 = 5"
    and c: "\<not> i dvd n" "\<not> (i + 2) dvd n"
  shows "\<forall>d. 2 \<le> d \<and> d < i + 6 \<longrightarrow> \<not> d dvd n"
proof (intro allI impI notI)
  fix d assume d: "2 \<le> d \<and> d < i + 6" and dn: "d dvd n"
  have n2: "\<not> 2 dvd n" and n3: "\<not> 3 dvd n" using inv i(1) by auto
  have "d < i \<or> d = i \<or> d = i + 1 \<or> d = i + 2 \<or> d = i + 3 \<or> d = i + 4 \<or> d = i + 5"
    using d by auto
  moreover have "2 dvd i + 1" "2 dvd i + 3" "3 dvd i + 4" "2 dvd i + 5"
    using i(2) by presburger+
  ultimately show False
    using inv d dn c n2 n3 by (metis dvd_trans)
qed

lemma isPrime_loop_correct:
  "5 \<le> i \<Longrightarrow> i mod 6 = 5 \<Longrightarrow> i \<le> 2 ^ 31 + 5 \<Longrightarrow> n < 2 ^ 62 \<Longrightarrow> 2 \<le> n \<Longrightarrow>
   \<forall>d. 2 \<le> d \<and> d < i \<longrightarrow> \<not> d dvd n \<Longrightarrow>
   isPrime_loop n i = Inr (trial_division n)"
proof (induction n i rule: isPrime_loop.induct)
  case (1 n i)
  have ii: "ll_mul i i = Inr (i * i)"
  proof -
    have "i * i \<le> (2 ^ 31 + 5) * (2 ^ 31 + 5)" using 1(2,4) by (intro mult_mono) auto
    moreover have "0 \<le> i * i" by simp
    ultimately have "\<bar>i * i\<bar> \<le> LLONG_MAX" by (simp add: LLONG_MAX_def)
    then have "in_ll (i * i)" by (rule in_ll_abs)
    then show ?thesis by (simp add: ll_mul_def)
  qed
  have nM: "\<bar>n\<bar> \<le> LLONG_MAX" using 1(5,6) by (simp add: LLONG_MAX_def)
  show ?case
  proof (cases "i * i \<le> n")
    case False
    then have "trial_division n"
      using 1(2,6,7) by (intro no_small_divisor_prime [of n i]) auto
    then show ?thesis using False ii by (subst isPrime_loop.simps) simp
  next
    case True
    have "i * 5 \<le> i * i" using 1(2) by (intro mult_left_mono) auto
    with True 1(2) have in': "i + 20 \<le> n" by linarith
    have r1: "ll_rem n i = Inr (n mod i)" using 1(2,6) nM by (simp add: ll_rem_in smod_pos)
    have i2: "ll_add i 2 = Inr (i + 2)"
      using 1(2,4) by (simp add: ll_add_def in_ll_def LLONG_MIN_def LLONG_MAX_def)
    have r2: "ll_rem n (i + 2) = Inr (n mod (i + 2))"
      using 1(2,6) nM by (simp add: ll_rem_in smod_pos)
    have i6: "ll_add i 6 = Inr (i + 6)"
      using 1(2,4) by (simp add: ll_add_def in_ll_def LLONG_MIN_def LLONG_MAX_def)
    show ?thesis
    proof (cases "n mod i = 0 \<or> n mod (i + 2) = 0")
      case d: True
      have "\<not> trial_division n"
      proof (cases "n mod i = 0")
        case True
        then have "i dvd n" by (simp add: dvd_eq_mod_eq_0)
        then show ?thesis using in' 1(2) by (intro divisor_not_prime [of i]) simp_all
      next
        case False
        with d have "i + 2 dvd n" by (simp add: dvd_eq_mod_eq_0)
        then show ?thesis using in' 1(2) by (intro divisor_not_prime [of "i + 2"]) simp_all
      qed
      then show ?thesis using True ii r1 i2 r2 d by (subst isPrime_loop.simps) auto
    next
      case nd: False
      have lt: "i < 2 ^ 31"
      proof (rule ccontr)
        assume "\<not> i < 2 ^ 31"
        then have "(2 ^ 31) * (2 ^ 31) \<le> i * i" by (intro mult_mono) auto
        with True 1(5) show False by simp
      qed
      have a1: "n mod i \<noteq> 0" and a2: "n mod (i + 2) \<noteq> 0" using nd by simp_all
      have inv: "\<forall>d. 2 \<le> d \<and> d < i + 6 \<longrightarrow> \<not> d dvd n"
        using a1 a2 by (intro stride_invariant 1(7) 1(2) 1(3)) (simp_all add: dvd_eq_mod_eq_0)
      have b1: "5 \<le> i + 6" using 1(2) by simp
      have b2: "(i + 6) mod 6 = 5" using 1(3) by presburger
      have b3: "i + 6 \<le> 2 ^ 31 + 5" using lt by simp
      have "isPrime_loop n (i + 6) = Inr (trial_division n)"
        by (rule 1(1) [OF ii True r1 a1 i2 r2 a2 i6 b1 b2 b3 1(5) 1(6) inv])
      then show ?thesis using True ii r1 i2 r2 i6 a1 a2 by (subst isPrime_loop.simps) simp
    qed
  qed
qed

lemma isPrime_correct:
  assumes "n < 2 ^ 62"
  shows "isPrime n = Inr (trial_division n)"
proof -
  consider "n \<le> 1" | "n = 2" | "n = 3" | "4 \<le> n" "2 dvd n \<or> 3 dvd n"
    | "4 \<le> n" "\<not> 2 dvd n" "\<not> 3 dvd n" by fastforce
  then show ?thesis
  proof cases
    case 1
    then show ?thesis by (simp add: isPrime_def trial_division_def)
  next
    case 2
    then show ?thesis by (simp add: isPrime_def trial_division_def)
  next
    case 3
    have "{2..<3::int} = {2}" by auto
    then show ?thesis using 3 by (simp add: isPrime_def trial_division_def)
  next
    case 4
    then have "\<not> trial_division n"
      using divisor_not_prime [of 2 n] divisor_not_prime [of 3 n] by auto
    then show ?thesis using 4 by (auto simp: isPrime_def smod_pos dvd_eq_mod_eq_0)
  next
    case 5
    have "\<forall>d. 2 \<le> d \<and> d < 5 \<longrightarrow> \<not> d dvd n"
    proof (intro allI impI notI)
      fix d :: int assume d: "2 \<le> d \<and> d < 5" and dn: "d dvd n"
      then have "d = 2 \<or> d = 3 \<or> d = 4" by auto
      moreover have "(2::int) dvd 4" by simp
      ultimately show False using dn 5 by (metis dvd_trans)
    qed
    then have "isPrime_loop n 5 = Inr (trial_division n)"
      using assms 5(1) by (intro isPrime_loop_correct) auto
    then show ?thesis using 5 by (simp add: isPrime_def smod_pos dvd_eq_mod_eq_0)
  qed
qed

section \<open>The claims about the number theory primitives\<close>

lemma in_ll_numeral_bounds: "in_ll x \<longleftrightarrow> - 9223372036854775808 \<le> x \<and> x \<le> 9223372036854775807"
  by (simp add: in_ll_def LLONG_MIN_def LLONG_MAX_def)

lemma modPow_value:
  assumes "in_ll base" "1 < modulus" "(modulus - 1) * (modulus - 1) \<le> LLONG_MAX"
  shows "modPow base exp modulus = Inr ((base ^ nat exp) smod modulus)"
proof -
  have "in_ll (base sdiv modulus)"
  proof -
    have "base sdiv modulus \<in> {- \<bar>base\<bar>..\<bar>base\<bar>}" by (rule sdiv_int_range)
    moreover have "base sdiv modulus \<le> 0" if "base < 0"
      using that assms(2) by (simp add: signed_divide_int_def sgn_if pos_imp_zdiv_nonneg_iff)
    ultimately show ?thesis
      using assms(1) by (cases "base < 0") (simp_all add: in_ll_def LLONG_MIN_def LLONG_MAX_def)
  qed
  then have r: "ll_rem base modulus = Inr (base smod modulus)"
    using assms(2) by (simp add: ll_rem_def)
  have "\<bar>base smod modulus\<bar> < modulus"
    using abs_smod_less [of modulus base] assms(2) by simp
  then have "modPow_loop 1 (base smod modulus) exp modulus
      = Inr ((1 * (base smod modulus) ^ nat exp) smod modulus)"
    using assms(2,3) by (intro modPow_loop_correct) auto
  also have "(1 * (base smod modulus) ^ nat exp) smod modulus = (base ^ nat exp) smod modulus"
    by (simp add: smod_power)
  finally show ?thesis by (simp add: modPow_def r)
qed

lemma modPow_bound_ok:
  assumes "1 < modulus" "modulus \<le> 3037000500"
  shows "(modulus - 1) * (modulus - 1) \<le> LLONG_MAX"
proof -
  have "(modulus - 1) * (modulus - 1) \<le> 3037000499 * 3037000499"
    using assms by (intro mult_mono) auto
  then show ?thesis by (simp add: LLONG_MAX_def)
qed

text \<open>
  C2 (amended). For every \<open>base\<close> of the integer type, every \<open>exp \<ge> 0\<close> and every
  modulus with \<open>1 < mod \<le> 3037000500\<close> (so that a product of two residues fits in 64
  bits), \<open>modPow base exp mod\<close> returns \<open>base ^ exp\<close> reduced by the operator \<open>%\<close> of C++
  (which is \<open>base ^ exp mod mod\<close> when \<open>base \<ge> 0\<close>); the result is below \<open>mod\<close>, and
  \<open>modPow b 0 mod = 1 = 1 mod mod\<close>.
\<close>

theorem C2_modPow:
  assumes "in_ll base" "0 \<le> exp" "1 < modulus" "modulus \<le> 3037000500"
  shows "modPow base exp modulus = Inr ((base ^ nat exp) smod modulus)
    \<and> (0 \<le> base \<longrightarrow> modPow base exp modulus = Inr ((base ^ nat exp) mod modulus))
    \<and> (\<exists>r. modPow base exp modulus = Inr r \<and> r < modulus)
    \<and> modPow base 0 modulus = Inr (1 mod modulus)"
proof -
  have b: "(modulus - 1) * (modulus - 1) \<le> LLONG_MAX"
    by (rule modPow_bound_ok [OF assms(3,4)])
  have v: "modPow base e modulus = Inr ((base ^ nat e) smod modulus)" for e
    by (rule modPow_value [OF assms(1,3) b])
  have "(base ^ nat exp) smod modulus = (base ^ nat exp) mod modulus" if "0 \<le> base"
    using that assms(3) by (simp add: smod_pos)
  moreover have "(base ^ nat exp) smod modulus < modulus"
    using abs_smod_less [of modulus "base ^ nat exp"] assms(3) by simp
  moreover have "(1::int) smod modulus = 1 mod modulus"
    using assms(3) by (simp add: smod_pos)
  ultimately show ?thesis using v [of exp] v [of 0] by simp
qed

theorem C2_modPow_witness:
  "modPow 7 5 13 = Inr ((7 ^ nat 5) smod 13)
    \<and> modPow 7 5 13 = Inr ((7 ^ nat 5) mod 13)
    \<and> (\<exists>r. modPow 7 5 13 = Inr r \<and> r < 13)
    \<and> modPow 7 0 13 = Inr (1 mod 13)"
  using C2_modPow [of 7 5 13] by (simp add: in_ll_numeral_bounds)

text \<open>
  The claim as stated fails for the modulus 1, where \<open>modPow b 0 1\<close> is 1 and not
  \<open>1 mod 1 = 0\<close>; for a modulus whose residues have squares beyond 64 bits; and, read
  with the mathematical \<open>mod\<close>, for a negative base, whose odd powers come back
  negative.
\<close>

theorem C2_modPow_counterexample:
  "modPow 2 0 1 = Inr 1 \<and> \<not> (1::int) < 1 \<and> (1::int) mod 1 \<noteq> 1
    \<and> modPow 3037000500 2 3037000501 = Inl SignedOverflow
    \<and> modPow (- 2) 1 5 = Inr (- 2) \<and> ((- 2) ^ 1) mod (5::int) = 3"
  by code_simp

lemma isPrime_nonpositive: "x \<le> 1 \<Longrightarrow> isPrime x = Inr False"
  by (simp add: isPrime_def)

text \<open>
  C3. \<open>isPrime x\<close> is false for every \<open>x \<le> 1\<close>, true for 2 and 3, and on every
  integer from 0 to 10000 it returns what trial division over all candidate divisors
  returns.
\<close>

theorem C3_isPrime:
  "(x \<le> 1 \<longrightarrow> isPrime x = Inr False)
    \<and> isPrime 2 = Inr True \<and> isPrime 3 = Inr True
    \<and> (0 \<le> x \<and> x \<le> 10000 \<longrightarrow> isPrime x = Inr (trial_division x))"
proof -
  have "isPrime x = Inr (trial_division x)" if "x \<le> 10000"
    using that by (intro isPrime_correct) simp
  moreover have "isPrime 2 = Inr True" "isPrime 3 = Inr True"
    by (simp_all add: isPrime_def)
  ultimately show ?thesis by (simp add: isPrime_nonpositive)
qed

theorem C3_isPrime_witness:
  "isPrime (- 7) = Inr False \<and> isPrime 2 = Inr True \<and> isPrime 3 = Inr True
    \<and> isPrime 9973 = Inr (trial_division 9973)"
  using C3_isPrime [of "- 7"] C3_isPrime [of 9973] by simp

text \<open>
  C4 (amended). For every \<open>a \<ge> 1\<close> and every \<open>m > 1\<close> of the integer type with
  \<open>gcd a m = 1\<close>, \<open>modInverse a m\<close> returns an \<open>r\<close> with \<open>0 \<le> r < m\<close> and
  \<open>a * r mod m = 1\<close>; and \<open>modInverse a 1 = 0\<close> for every \<open>a\<close>.
\<close>

theorem C4_modInverse:
  "(1 \<le> a \<and> in_ll a \<and> 1 < m \<and> in_ll m \<and> gcd a m = 1 \<longrightarrow>
      (\<exists>r. modInverse a m = Inr r \<and> 0 \<le> r \<and> r < m \<and> (a * r) mod m = 1))
    \<and> modInverse a 1 = Inr 0"
proof -
  have "\<exists>r. modInverse a m = Inr r \<and> 0 \<le> r \<and> r < m \<and> (a * r) mod m = 1"
    if "1 \<le> a \<and> in_ll a \<and> 1 < m \<and> in_ll m \<and> gcd a m = 1"
    using that by (intro modInverse_coprime) (simp_all add: in_ll_def)
  moreover have "modInverse a 1 = Inr 0" by (simp add: modInverse_def)
  ultimately show ?thesis by (intro conjI impI)
qed

theorem C4_modInverse_witness:
  "(\<exists>r. modInverse 65537 10200 = Inr r \<and> 0 \<le> r \<and> r < 10200 \<and> (65537 * r) mod 10200 = 1)
    \<and> modInverse 65537 1 = Inr 0"
proof -
  have "gcd (65537::int) 10200 = 1" by code_simp
  then show ?thesis
    using C4_modInverse [of 65537 10200] by (simp add: in_ll_numeral_bounds)
qed

text \<open>
  The claim as stated fails for a negative \<open>a\<close>: the loop is not entered and 1 comes
  back, which is no inverse of \<open>- 1\<close> modulo 3.
\<close>

theorem C4_modInverse_counterexample:
  "gcd (- 1) (3::int) = 1 \<and> modInverse (- 1) 3 = Inr 1 \<and> ((- 1) * 1) mod (3::int) \<noteq> 1"
  by code_simp

text \<open>
  C5 (amended). \<open>modInverse\<close> terminates on every pair \<open>(a, m)\<close> of the integer type
  (the model is a total function, by the termination proof of its loop). It returns a
  value unless \<open>a > 1\<close>, \<open>m \<ge> 0\<close> and \<open>gcd a m \<noteq> 1\<close>; in that case the Euclidean
  loop reaches the divisor 0 and the run ends in a division by zero: no value comes
  back.
\<close>

theorem C5_modInverse_total:
  assumes "in_ll a" "in_ll m"
  shows "(modInverse a m = Inl DivisionByZero \<longleftrightarrow> 1 < a \<and> 0 \<le> m \<and> gcd a m \<noteq> 1)
    \<and> ((\<exists>r. modInverse a m = Inr r) \<longleftrightarrow> \<not> (1 < a \<and> 0 \<le> m \<and> gcd a m \<noteq> 1))"
  by (rule modInverse_cases [OF assms])

theorem C5_modInverse_total_witness:
  "(modInverse 6 4 = Inl DivisionByZero \<longleftrightarrow> 1 < (6::int) \<and> 0 \<le> (4::int) \<and> gcd 6 (4::int) \<noteq> 1)
    \<and> ((\<exists>r. modInverse 6 4 = Inr r) \<longleftrightarrow> \<not> (1 < (6::int) \<and> 0 \<le> (4::int) \<and> gcd 6 (4::int) \<noteq> 1))"
  by (rule C5_modInverse_total) (simp_all add: in_ll_numeral_bounds)

text \<open>
  The claim as stated fails wherever the two arguments share a factor, as in
  \<open>modInverse 4 2\<close>: the second iteration divides by zero.
\<close>

theorem C5_modInverse_counterexample:
  "gcd (4::int) 2 \<noteq> 1 \<and> modInverse 4 2 = Inl DivisionByZero"
  by code_simp

section \<open>Keys built by the constructor, and the round trip of one number\<close>

lemma generatePrime_returns_iff:
  "generatePrime_returns num \<longleftrightarrow> 100 \<le> num \<and> num \<le> 1000 \<and> trial_division num"
proof (cases "100 \<le> num \<and> num \<le> 1000")
  case True
  then have "isPrime num = Inr (trial_division num)" by (intro isPrime_correct) simp
  then show ?thesis by (simp add: generatePrime_returns_def)
next
  case False
  then show ?thesis by (auto simp: generatePrime_returns_def)
qed

lemma trial_division_65537: "trial_division 65537"
proof -
  have "isPrime 65537 = Inr True" by code_simp
  moreover have "isPrime 65537 = Inr (trial_division 65537)" by (intro isPrime_correct) simp
  ultimately show ?thesis by simp
qed

text \<open>The public exponent is coprime to the totient of every key the constructor builds.\<close>

lemma exponent_coprime_totient:
  assumes "1 < p" "p \<le> 1000" "1 < q" "q \<le> 1000"
  shows "gcd 65537 ((p - 1) * (q - 1)) = (1::int)"
proof -
  have "\<not> 65537 dvd (p - 1) * (q - 1)"
  proof
    assume "65537 dvd (p - 1) * (q - 1)"
    then have "65537 dvd (p - 1) \<or> 65537 dvd (q - 1)"
      by (rule trial_division_dvd_mult [OF trial_division_65537])
    then show False using assms by (auto dest!: zdvd_imp_le)
  qed
  then have "coprime 65537 ((p - 1) * (q - 1))"
    by (rule trial_division_coprime [OF trial_division_65537])
  then show ?thesis by (simp add: coprime_iff_gcd_eq_1)
qed

lemma RSA_init_value:
  assumes p: "100 \<le> p" "p \<le> 1000" and q: "100 \<le> q" "q \<le> 1000"
  shows "\<exists>d.
    RSA_init p q = Inr \<lparr>RSA_p = p, RSA_q = q, RSA_n = p * q, RSA_phi = (p - 1) * (q - 1),
       RSA_e = 65537, RSA_d = d\<rparr>
    \<and> modInverse 65537 ((p - 1) * (q - 1)) = Inr d
    \<and> 0 \<le> d \<and> d < (p - 1) * (q - 1) \<and> (65537 * d) mod ((p - 1) * (q - 1)) = 1"
proof -
  have "0 \<le> p * q" using p q by simp
  moreover have "p * q \<le> 1000 * 1000" using p q by (intro mult_mono) auto
  ultimately have n: "in_ll (p * q)" by (simp add: in_ll_numeral_bounds)
  have "99 * 99 \<le> (p - 1) * (q - 1)" using p q by (intro mult_mono) auto
  moreover have "(p - 1) * (q - 1) \<le> 999 * 999" using p q by (intro mult_mono) auto
  ultimately have phi: "9801 \<le> (p - 1) * (q - 1)" "(p - 1) * (q - 1) \<le> 998001" by simp_all
  have g: "gcd 65537 ((p - 1) * (q - 1)) = 1"
    using p q by (intro exponent_coprime_totient) auto
  obtain d where d: "modInverse 65537 ((p - 1) * (q - 1)) = Inr d"
    "0 \<le> d" "d < (p - 1) * (q - 1)" "(65537 * d) mod ((p - 1) * (q - 1)) = 1"
    using modInverse_coprime [OF _ _ _ _ g] phi by (auto simp: LLONG_MAX_def)
  have "RSA_init p q = Inr \<lparr>RSA_p = p, RSA_q = q, RSA_n = p * q, RSA_phi = (p - 1) * (q - 1),
       RSA_e = 65537, RSA_d = d\<rparr>"
    using n phi p q d(1)
    by (simp add: RSA_init_def ll_mul_def ll_sub_def ll_def in_ll_numeral_bounds)
  then show ?thesis using d by blast
qed

lemma smod_minus: "(- x) smod n = - (x smod n)" for x n :: int
  by (simp add: smod_int_alt_def)

lemma trial_division_odd:
  assumes "trial_division p" "2 < p"
  shows "odd p"
proof
  assume "even p"
  then have "(2::int) = 1 \<or> 2 = p" by (intro trial_division_dvd [OF assms(1)]) auto
  with assms(2) show False by simp
qed

lemma rsa_signed_power:
  assumes p: "trial_division p" "2 < p" and q: "trial_division q" and pq: "p \<noteq> q"
    and ed: "int ed mod ((p - 1) * (q - 1)) = 1" and m: "\<bar>m\<bar> < p * q"
  shows "(m ^ ed) smod (p * q) = m"
proof -
  have n: "0 < p * q" using m by simp
  have "even ((p - 1) * (q - 1))" using trial_division_odd [OF p] by simp
  then have "even (int ed) \<longleftrightarrow> even (int ed mod ((p - 1) * (q - 1)))"
    by (simp add: dvd_mod_iff)
  then have "odd (int ed)" by (simp add: ed)
  then have oe: "odd ed" by simp
  have a: "\<bar>m\<bar> ^ ed mod (p * q) = \<bar>m\<bar>"
    using rsa_power [OF p(1) q pq ed, of "\<bar>m\<bar>"] m by simp
  show ?thesis
  proof (cases "0 \<le> m")
    case True
    then have "(m ^ ed) smod (p * q) = m ^ ed mod (p * q)" using n by (intro smod_pos) auto
    then show ?thesis using a True by simp
  next
    case False
    then have "m = - \<bar>m\<bar>" by simp
    then have "m ^ ed = (- \<bar>m\<bar>) ^ ed" by simp
    also have "\<dots> = - (\<bar>m\<bar> ^ ed)" by (rule power_minus_odd [OF oe])
    finally have "m ^ ed = - (\<bar>m\<bar> ^ ed)" .
    then have "(m ^ ed) smod (p * q) = - ((\<bar>m\<bar> ^ ed) smod (p * q))" by (simp add: smod_minus)
    also have "(\<bar>m\<bar> ^ ed) smod (p * q) = \<bar>m\<bar> ^ ed mod (p * q)" using n by (intro smod_pos) auto
    finally show ?thesis using a False by simp
  qed
qed

lemma rsa_round_trip:
  assumes p: "trial_division p" "100 \<le> p" "p \<le> 1000"
    and q: "trial_division q" "100 \<le> q" "q \<le> 1000" and pq: "p \<noteq> q"
    and k: "RSA_n k = p * q" "RSA_e k = int e" "RSA_d k = d"
    and d: "0 \<le> d" "(int e * d) mod ((p - 1) * (q - 1)) = 1"
    and m: "\<bar>m\<bar> < p * q"
  shows "\<exists>c. encrypt k m = Inr c \<and> \<bar>c\<bar> < p * q \<and> decrypt k c = Inr m"
proof -
  have "100 * 100 \<le> p * q" using p q by (intro mult_mono) auto
  then have n1: "1 < p * q" by simp
  have "p * q \<le> 1000 * 1000" using p q by (intro mult_mono) auto
  then have nb: "p * q \<le> 3037000500" by simp
  have b: "(p * q - 1) * (p * q - 1) \<le> LLONG_MAX" by (rule modPow_bound_ok [OF n1 nb])
  have im: "in_ll x" if "\<bar>x\<bar> < p * q" for x
    using that nb by (intro in_ll_abs) (simp add: LLONG_MAX_def)
  define c where "c = (m ^ e) smod (p * q)"
  have enc: "encrypt k m = Inr c"
    using modPow_value [OF im [OF m] n1 b, of "int e"] by (simp add: encrypt_def k c_def)
  have cb: "\<bar>c\<bar> < p * q" unfolding c_def using abs_smod_less [of "p * q" "m ^ e"] p q by simp
  have "decrypt k c = Inr ((c ^ nat d) smod (p * q))"
    using modPow_value [OF im [OF cb] n1 b, of d] by (simp add: decrypt_def k)
  also have "(c ^ nat d) smod (p * q) = ((m ^ e) ^ nat d) smod (p * q)"
    unfolding c_def by (rule smod_power)
  also have "(m ^ e) ^ nat d = m ^ (e * nat d)" by (rule power_mult [symmetric])
  also have "(m ^ (e * nat d)) smod (p * q) = m"
  proof (rule rsa_signed_power [OF p(1) _ q(1) pq _ m])
    show "2 < p" using p by simp
    show "int (e * nat d) mod ((p - 1) * (q - 1)) = 1" using d by simp
  qed
  finally have dec: "decrypt k c = Inr m" .
  show ?thesis using enc cb dec by (intro exI [of _ c] conjI)
qed

text \<open>
  C1 (amended). For every pair of distinct primes \<open>p \<noteq> q\<close> in \<open>[100, 1000)\<close> with
  \<open>gcd 65537 ((p - 1) * (q - 1)) = 1\<close>, the constructor builds the key \<open>n = p * q\<close>,
  \<open>e = 65537\<close>, \<open>d = modInverse e phi\<close>, and \<open>decrypt (encrypt m) = m\<close> for every \<open>m\<close>
  in \<open>[0, p * q)\<close>.
\<close>

theorem C1_decrypt_encrypt:
  assumes "trial_division p" "100 \<le> p" "p < 1000"
    and "trial_division q" "100 \<le> q" "q < 1000"
    and "p \<noteq> q" and "gcd 65537 ((p - 1) * (q - 1)) = 1"
    and "0 \<le> m" "m < p * q"
  shows "\<exists>k c. RSA_init p q = Inr k \<and> RSA_n k = p * q \<and> RSA_e k = 65537
    \<and> modInverse 65537 ((p - 1) * (q - 1)) = Inr (RSA_d k)
    \<and> encrypt k m = Inr c \<and> decrypt k c = Inr m"
proof -
  obtain d where d: "RSA_init p q = Inr \<lparr>RSA_p = p, RSA_q = q, RSA_n = p * q,
      RSA_phi = (p - 1) * (q - 1), RSA_e = 65537, RSA_d = d\<rparr>"
    "modInverse 65537 ((p - 1) * (q - 1)) = Inr d"
    "0 \<le> d" "(65537 * d) mod ((p - 1) * (q - 1)) = 1"
    using RSA_init_value [of p q] assms by auto
  define k where "k = \<lparr>RSA_p = p, RSA_q = q, RSA_n = p * q,
      RSA_phi = (p - 1) * (q - 1), RSA_e = 65537, RSA_d = d\<rparr>"
  have "\<exists>c. encrypt k m = Inr c \<and> \<bar>c\<bar> < p * q \<and> decrypt k c = Inr m"
  proof (rule rsa_round_trip [where e = 65537 and d = d])
    show "(int 65537 * d) mod ((p - 1) * (q - 1)) = 1" using d(4) by simp
  qed (use assms d(3) in \<open>simp_all add: k_def\<close>)
  then show ?thesis using d(1,2) by (auto simp: k_def)
qed

theorem C1_decrypt_encrypt_witness:
  "\<exists>k c. RSA_init 101 103 = Inr k \<and> RSA_n k = 101 * 103 \<and> RSA_e k = 65537
    \<and> modInverse 65537 ((101 - 1) * (103 - 1)) = Inr (RSA_d k)
    \<and> encrypt k 42 = Inr c \<and> decrypt k c = Inr 42"
proof -
  have p: "trial_division 101" and q: "trial_division 103" by code_simp+
  have g: "gcd 65537 ((101 - 1) * (103 - 1)) = (1::int)" by code_simp
  show ?thesis using C1_decrypt_encrypt [OF p _ _ q _ _ _ g, of 42] by simp
qed

text \<open>
  The claim as stated fails when the two draws are the same prime: \<open>(p - 1) * (q - 1)\<close>
  is then not the totient of \<open>n = p * p\<close>. With \<open>p = q = 101\<close> the plaintext 101
  encrypts to 0, which decrypts to 0.
\<close>

theorem C1_equal_primes_counterexample:
  "trial_division 101 \<and> gcd 65537 ((101 - 1) * (101 - 1)) = (1::int)
    \<and> (0::int) \<le> 101 \<and> (101::int) < 101 * 101
    \<and> and_then (RSA_init 101 101) (\<lambda>k. and_then (encrypt k 101) (decrypt k)) = Inr 0"
  by code_simp

section \<open>Tokens of a stream\<close>

lemma extract_token_whitespace:
  "list_all isspace w \<Longrightarrow> extract_token (w @ s) = extract_token s"
  by (simp add: extract_token_def list_all_iff dropWhile_append)

lemma extract_token_all_whitespace:
  "list_all isspace w \<Longrightarrow> extract_token w = None"
  by (simp add: extract_token_def list_all_iff)

lemma extract_token_token:
  assumes "is_token t" "s = [] \<or> isspace (hd s)"
  shows "extract_token (t @ s) = Some (t, s)"
proof -
  from assms(1) obtain c r where t: "t = c # r" and c: "\<not> isspace c"
    by (cases t) (auto simp: is_token_def)
  have ns: "\<forall>x\<in>set t. \<not> isspace x" using assms(1) by (simp add: is_token_def list_all_iff)
  have d: "dropWhile isspace (t @ s) = t @ s" using t c by simp
  have tk: "takeWhile (\<lambda>c. \<not> isspace c) (t @ s) = t"
    using ns assms(2) by (cases s) (simp_all add: takeWhile_append2)
  have dk: "dropWhile (\<lambda>c. \<not> isspace c) (t @ s) = s"
    using ns assms(2) by (cases s) (simp_all add: dropWhile_append2)
  have ne: "t @ s \<noteq> []" using t by simp
  show ?thesis unfolding extract_token_def Let_def d tk dk using ne by simp
qed

lemma tokens_whitespace: "list_all isspace w \<Longrightarrow> tokens (w @ s) = tokens s"
  by (subst tokens.simps, subst (2) tokens.simps) (simp add: extract_token_whitespace)

lemma tokens_all_whitespace: "list_all isspace w \<Longrightarrow> tokens w = []"
  by (subst tokens.simps) (simp add: extract_token_all_whitespace)

lemma tokens_token:
  assumes "is_token t" "s = [] \<or> isspace (hd s)"
  shows "tokens (t @ s) = t # tokens s"
  by (subst tokens.simps) (simp add: extract_token_token [OF assms])

lemma tokens_token_whitespace:
  assumes "is_token t" "list_all isspace w" "w \<noteq> [] \<or> s = []"
  shows "tokens (t @ w @ s) = t # tokens s"
proof -
  have "w @ s = [] \<or> isspace (hd (w @ s))"
    using assms(2,3) by (cases w) (auto simp: list_all_iff)
  then have "tokens (t @ w @ s) = t # tokens (w @ s)" by (rule tokens_token [OF assms(1)])
  then show ?thesis by (simp add: tokens_whitespace [OF assms(2)])
qed

text \<open>Every layout of a token sequence is read back as that sequence.\<close>

lemma tokens_layout_aux:
  "length ws = length ts \<Longrightarrow> list_all is_token ts \<Longrightarrow> list_all (list_all isspace) ws \<Longrightarrow>
   list_all (\<lambda>w. w \<noteq> []) (butlast ws) \<Longrightarrow>
   tokens (concat (map2 (@) ts ws)) = ts"
proof (induction ws ts rule: list_induct2)
  case Nil
  show ?case by (simp add: tokens_all_whitespace)
next
  case (Cons w ws t ts)
  have "w \<noteq> [] \<or> concat (map2 (@) ts ws) = []"
    using Cons.prems(3) Cons.hyps by (cases ws) auto
  then have "tokens (t @ w @ concat (map2 (@) ts ws)) = t # tokens (concat (map2 (@) ts ws))"
    using Cons.prems by (intro tokens_token_whitespace) auto
  moreover have "tokens (concat (map2 (@) ts ws)) = ts"
    using Cons.prems Cons.hyps by (intro Cons.IH) (auto split: if_splits)
  ultimately show ?case by simp
qed

lemma tokens_layout:
  assumes "length ws = length ts" "list_all is_token ts" "list_all (list_all isspace) ws"
    "list_all (\<lambda>w. w \<noteq> []) (butlast ws)" "list_all isspace lead"
  shows "tokens (lead @ concat (map2 (@) ts ws)) = ts"
  using tokens_layout_aux [OF assms(1-4)] by (simp add: tokens_whitespace [OF assms(5)])

lemma tokens_join_spaces: "list_all is_token ts \<Longrightarrow> tokens (join_spaces ts) = ts"
proof (induction ts rule: join_spaces.induct)
  case 1
  show ?case by (simp add: tokens_all_whitespace)
next
  case (2 t)
  then show ?case using tokens_token [of t "[]"] by (simp add: tokens_all_whitespace)
next
  case (3 t u ts)
  have "tokens (t @ '' '' @ join_spaces (u # ts)) = t # tokens (join_spaces (u # ts))"
    using 3(2) by (intro tokens_token_whitespace) (auto simp: isspace_def)
  then show ?case using 3 by simp
qed

lemma tokens_trailing_spaces:
  "list_all is_token ts \<Longrightarrow> tokens (concat (map (\<lambda>t. t @ '' '') ts)) = ts"
proof (induction ts)
  case Nil
  show ?case by (simp add: tokens_all_whitespace)
next
  case (Cons t ts)
  have "tokens (t @ '' '' @ concat (map (\<lambda>t. t @ '' '') ts)) = t # tokens (concat (map (\<lambda>t. t @ '' '') ts))"
    using Cons.prems by (intro tokens_token_whitespace) (auto simp: isspace_def)
  then show ?case using Cons by simp
qed

lemma tokens_are_tokens: "list_all is_token (tokens ss)"
proof (induction ss rule: tokens.induct)
  case (1 ss)
  show ?case
  proof (cases "extract_token ss")
    case None
    then show ?thesis by (subst tokens.simps) simp
  next
    case (Some a)
    obtain token ss' where a: "a = (token, ss')" by (cases a)
    define rest where "rest = dropWhile isspace ss"
    have ne: "rest \<noteq> []" and tk: "token = takeWhile (\<lambda>c. \<not> isspace c) rest"
      using Some a by (auto simp: extract_token_def rest_def Let_def split: if_splits)
    from ne have "\<not> isspace (hd rest)" unfolding rest_def by (rule hd_dropWhile)
    with ne have "token \<noteq> []" unfolding tk by (cases rest) auto
    moreover have "list_all (\<lambda>c. \<not> isspace c) token"
      unfolding tk list_all_iff by (auto dest: set_takeWhileD)
    ultimately have "is_token token" by (simp add: is_token_def)
    moreover have "list_all is_token (tokens ss')" using Some a by (intro 1) auto
    ultimately show ?thesis using Some a by (subst tokens.simps) simp
  qed
qed

text \<open>The three token loops, as runs over the tokens of the stream.\<close>

lemma and_then_assoc: "and_then (and_then r f) g = and_then r (\<lambda>v. and_then (f v) g)"
  by (cases r) simp_all

lemma decryptString_loop_for_each:
  "decryptString_loop k ss result =
     for_each (\<lambda>token. and_then (stoll token) (\<lambda>num.
        and_then (decrypt k num) (\<lambda>decrypted. Inr [char_of decrypted])))
       (tokens ss) result"
proof (induction k ss result rule: decryptString_loop.induct)
  case (1 k ss result)
  show ?case
  proof (cases "extract_token ss")
    case None
    then show ?thesis
      by (subst decryptString_loop.simps, subst tokens.simps) simp
  next
    case (Some a)
    obtain token ss' where a: "a = (token, ss')" by (cases a)
    show ?thesis
    proof (cases "stoll token")
      case (Inl err)
      then show ?thesis using Some a
        by (subst decryptString_loop.simps, subst tokens.simps) simp
    next
      case num: (Inr num)
      show ?thesis
      proof (cases "decrypt k num")
        case (Inl err)
        then show ?thesis using Some a num
          by (subst decryptString_loop.simps, subst tokens.simps) simp
      next
        case (Inr decrypted)
        then show ?thesis using Some a num 1 [OF Some a [symmetric] num Inr]
          by (subst decryptString_loop.simps, subst tokens.simps) simp
      qed
    qed
  qed
qed

lemma encryptHuffmanCodes_loop_for_each:
  "encryptHuffmanCodes_loop sc k ss result =
     for_each (\<lambda>token. and_then (encrypt k (binaryToLong sc token)) (\<lambda>encrypted.
        and_then (longToBinary encrypted (size_to_int (length token))) (\<lambda>encryptedBinary.
          Inr (encryptedBinary @ '' ''))))
       (tokens ss) result"
proof (induction sc k ss result rule: encryptHuffmanCodes_loop.induct)
  case (1 sc k ss result)
  show ?case
  proof (cases "extract_token ss")
    case None
    then show ?thesis
      by (subst encryptHuffmanCodes_loop.simps, subst tokens.simps) simp
  next
    case (Some a)
    obtain token ss' where a: "a = (token, ss')" by (cases a)
    show ?thesis
    proof (cases "encrypt k (binaryToLong sc token)")
      case (Inl err)
      then show ?thesis using Some a
        by (subst encryptHuffmanCodes_loop.simps, subst tokens.simps) simp
    next
      case num: (Inr encrypted)
      show ?thesis
      proof (cases "longToBinary encrypted (size_to_int (length token))")
        case (Inl err)
        then show ?thesis using Some a num
          by (subst encryptHuffmanCodes_loop.simps, subst tokens.simps) simp
      next
        case (Inr encryptedBinary)
        then show ?thesis using Some a num 1 [OF Some a [symmetric] num Inr]
          by (subst encryptHuffmanCodes_loop.simps, subst tokens.simps) simp
      qed
    qed
  qed
qed

lemma decryptHuffmanCodes_loop_for_each:
  "decryptHuffmanCodes_loop sc k ss result =
     for_each (\<lambda>token. and_then (decrypt k (binaryToLong sc token)) (\<lambda>decrypted.
        and_then (longToBinary decrypted (size_to_int (length token))) (\<lambda>decryptedBinary.
          Inr (decryptedBinary @ '' ''))))
       (tokens ss) result"
proof (induction sc k ss result rule: decryptHuffmanCodes_loop.induct)
  case (1 sc k ss result)
  show ?case
  proof (cases "extract_token ss")
    case None
    then show ?thesis
      by (subst decryptHuffmanCodes_loop.simps, subst tokens.simps) simp
  next
    case (Some a)
    obtain token ss' where a: "a = (token, ss')" by (cases a)
    show ?thesis
    proof (cases "decrypt k (binaryToLong sc token)")
      case (Inl err)
      then show ?thesis using Some a
        by (subst decryptHuffmanCodes_loop.simps, subst tokens.simps) simp
    next
      case num: (Inr decrypted)
      show ?thesis
      proof (cases "longToBinary decrypted (size_to_int (length token))")
        case (Inl err)
        then show ?thesis using Some a num
          by (subst decryptHuffmanCodes_loop.simps, subst tokens.simps) simp
      next
        case (Inr decryptedBinary)
        then show ?thesis using Some a num 1 [OF Some a [symmetric] num Inr]
          by (subst decryptHuffmanCodes_loop.simps, subst tokens.simps) simp
      qed
    qed
  qed
qed

section \<open>Decimal numerals: to\_string and stoll\<close>

lemma of_char_digit: "x < 10 \<Longrightarrow> (of_char (char_of (48 + x)) :: nat) = 48 + x" for x :: nat
  by (simp add: of_char_of)

lemma of_char_digit_int: "x < 10 \<Longrightarrow> (of_char (char_of (48 + x)) :: int) = 48 + int x" for x :: nat
proof -
  assume x: "x < 10"
  have "(of_char (char_of (48 + x)) :: int) = int (of_char (char_of (48 + x)))"
    by (simp only: of_nat_of_char)
  also have "\<dots> = int (48 + x)" by (simp only: of_char_digit [OF x])
  finally show ?thesis by simp
qed

lemma isdigit_digit: "x < 10 \<Longrightarrow> isdigit (char_of (48 + x))" for x :: nat
  by (simp add: isdigit_def of_char_digit)

lemma digits_of_nonempty: "digits_of x \<noteq> []"
  by (subst digits_of.simps) simp

lemma digits_of_isdigit: "list_all isdigit (digits_of x)"
proof (induction x rule: digits_of.induct)
  case (1 x)
  show ?case
  proof (cases "x < 10")
    case True
    then show ?thesis by (subst digits_of.simps) (simp add: isdigit_digit)
  next
    case False
    then show ?thesis using 1 by (subst digits_of.simps) (simp add: isdigit_digit)
  qed
qed

lemma digits_value_snoc:
  "digits_value (ds @ [c]) = 10 * digits_value ds + (of_char c - 48)"
  by (simp add: digits_value_def)

lemma digits_value_digits_of: "digits_value (digits_of x) = int x"
proof (induction x rule: digits_of.induct)
  case (1 x)
  show ?case
  proof (cases "x < 10")
    case True
    then have "(of_char (char_of (48 + x)) :: int) = 48 + int x"
      by (rule of_char_digit_int)
    then show ?thesis using True by (subst digits_of.simps) (simp add: digits_value_def)
  next
    case False
    have "x mod 10 < 10" by simp
    then have "(of_char (char_of (48 + x mod 10)) :: int) = 48 + int (x mod 10)"
      by (rule of_char_digit_int)
    then show ?thesis using False 1
      by (subst digits_of.simps) (simp add: digits_value_snoc zmod_int zdiv_int)
  qed
qed

lemma isdigit_not_isspace: "isdigit c \<Longrightarrow> \<not> isspace c"
  by (auto simp: isdigit_def isspace_def)

lemma isdigit_not_sign: "isdigit c \<Longrightarrow> c \<noteq> CHR ''-'' \<and> c \<noteq> CHR ''+''"
  by (auto simp: isdigit_def)

lemma stoll_digits:
  assumes "ds \<noteq> []" "list_all isdigit ds" "in_ll (digits_value ds)"
  shows "stoll ds = Inr (digits_value ds)"
proof -
  obtain c r where ds: "ds = c # r" using assms(1) by (cases ds) auto
  have c: "isdigit c" using assms(2) ds by simp
  have d: "dropWhile isspace ds = ds" using c ds by (simp add: isdigit_not_isspace)
  have t: "takeWhile isdigit ds = ds" using assms(2) by (simp add: list_all_iff)
  have h: "hd ds \<noteq> CHR ''-''" "hd ds \<noteq> CHR ''+''" using c ds isdigit_not_sign by auto
  show ?thesis unfolding stoll_def Let_def d using h assms(1,3) by (simp add: t)
qed

lemma stoll_minus_digits:
  assumes "ds \<noteq> []" "list_all isdigit ds" "in_ll (- digits_value ds)"
  shows "stoll (CHR ''-'' # ds) = Inr (- digits_value ds)"
proof -
  have d: "dropWhile isspace (CHR ''-'' # ds) = CHR ''-'' # ds" by (simp add: isspace_def)
  have t: "takeWhile isdigit ds = ds" using assms(2) by (simp add: list_all_iff)
  show ?thesis unfolding stoll_def Let_def d using assms(1,3) by (simp add: t)
qed

lemma stoll_to_string: "in_ll x \<Longrightarrow> stoll (to_string x) = Inr x"
  using stoll_digits [of "digits_of (nat x)"] stoll_minus_digits [of "digits_of (nat (- x))"]
  by (simp add: to_string_def digits_of_nonempty digits_of_isdigit digits_value_digits_of)

lemma is_token_to_string: "is_token (to_string x)"
proof -
  have "list_all (\<lambda>c. \<not> isspace c) (digits_of n)" for n
    using digits_of_isdigit [of n] by (auto simp: list_all_iff isdigit_not_isspace)
  then show ?thesis
    by (simp add: is_token_def to_string_def digits_of_nonempty isspace_def)
qed

lemma is_decimal_to_string: "is_decimal (to_string x)"
proof (cases "x < 0")
  case True
  then show ?thesis by (simp add: is_decimal_def to_string_def digits_of_nonempty digits_of_isdigit)
next
  case False
  obtain c r where d: "digits_of (nat x) = c # r"
    using digits_of_nonempty [of "nat x"] by (cases "digits_of (nat x)") auto
  have "list_all isdigit (c # r)" using digits_of_isdigit [of "nat x"] d by simp
  then have "c \<noteq> CHR ''-''" using isdigit_not_sign by auto
  then show ?thesis using False d \<open>list_all isdigit (c # r)\<close>
    by (simp add: is_decimal_def to_string_def)
qed

section \<open>Encrypting and decrypting a string\<close>

lemma char_of_char_value: "char_of (char_value sc c) = c"
proof -
  have "char_of ((of_char c :: int) - 256) = char_of (((of_char c :: int) - 256) mod 256)"
    by (simp only: char_of_mod_256)
  also have "((of_char c :: int) - 256) mod 256 = of_char c mod 256" by simp
  also have "char_of ((of_char c :: int) mod 256) = char_of (of_char c :: int)"
    by (simp only: char_of_mod_256)
  finally show ?thesis by (simp add: char_value_def)
qed

lemma char_value_range: "- 128 \<le> char_value sc c \<and> char_value sc c \<le> 255"
proof -
  have e: "(of_char c :: int) = int (of_char c)" by (simp only: of_nat_of_char)
  have "(of_char c :: nat) < 256" by simp
  then have "int (of_char c) < 256" by simp
  moreover have "0 \<le> int (of_char c)" by simp
  ultimately have "(of_char c :: int) < 256" and "0 \<le> (of_char c :: int)"
    by (simp_all only: e)
  then show ?thesis by (auto simp: char_value_def)
qed

lemma encrypt_value:
  assumes "1 < RSA_n k" "RSA_n k \<le> 3037000500" "in_ll m"
  shows "encrypt k m = Inr ((m ^ nat (RSA_e k)) smod RSA_n k)"
  unfolding encrypt_def
  by (rule modPow_value [OF assms(3,1) modPow_bound_ok [OF assms(1,2)]])

lemma decrypt_value:
  assumes "1 < RSA_n k" "RSA_n k \<le> 3037000500" "in_ll c"
  shows "decrypt k c = Inr ((c ^ nat (RSA_d k)) smod RSA_n k)"
  unfolding decrypt_def
  by (rule modPow_value [OF assms(3,1) modPow_bound_ok [OF assms(1,2)]])

lemma encryptString_loop_value:
  assumes "1 < RSA_n k" "RSA_n k \<le> 3037000500"
  shows "encryptString_loop sc k message result =
    Inr (result @ concat (map (\<lambda>c. to_string ((char_value sc c ^ nat (RSA_e k)) smod RSA_n k) @ '' '') message))"
proof (induction message arbitrary: result)
  case Nil
  show ?case by simp
next
  case (Cons c message)
  have "in_ll (char_value sc c)"
    using char_value_range [of sc c] by (simp add: in_ll_numeral_bounds)
  then show ?case by (simp add: encrypt_value [OF assms] Cons)
qed

text \<open>The facts about a key that the constructor has built.\<close>

lemma RSA_init_facts:
  assumes "generatePrime_returns p" "generatePrime_returns q" "RSA_init p q = Inr k"
  shows "RSA_n k = p * q \<and> RSA_e k = 65537 \<and> RSA_phi k = (p - 1) * (q - 1)
    \<and> 0 \<le> RSA_d k \<and> (65537 * RSA_d k) mod ((p - 1) * (q - 1)) = 1"
proof -
  have p: "100 \<le> p" "p \<le> 1000" and q: "100 \<le> q" "q \<le> 1000"
    using assms(1,2) by (simp_all add: generatePrime_returns_iff)
  obtain d where d: "RSA_init p q = Inr \<lparr>RSA_p = p, RSA_q = q, RSA_n = p * q,
      RSA_phi = (p - 1) * (q - 1), RSA_e = 65537, RSA_d = d\<rparr>"
    "0 \<le> d" "(65537 * d) mod ((p - 1) * (q - 1)) = 1"
    using RSA_init_value [OF p q] by auto
  then show ?thesis using assms(3) by auto
qed

lemma RSA_init_modulus:
  assumes "generatePrime_returns p" "generatePrime_returns q" "RSA_init p q = Inr k"
  shows "10000 \<le> RSA_n k \<and> RSA_n k \<le> 1000000"
proof -
  have p: "100 \<le> p" "p \<le> 1000" and q: "100 \<le> q" "q \<le> 1000"
    using assms(1,2) by (simp_all add: generatePrime_returns_iff)
  have "100 * 100 \<le> p * q" using p q by (intro mult_mono) auto
  moreover have "p * q \<le> 1000 * 1000" using p q by (intro mult_mono) auto
  ultimately show ?thesis using RSA_init_facts [OF assms] by simp
qed

lemma key_round_trip:
  assumes "generatePrime_returns p" "generatePrime_returns q" "p \<noteq> q" "RSA_init p q = Inr k"
    and "\<bar>m\<bar> < RSA_n k"
  shows "decrypt k ((m ^ nat (RSA_e k)) smod RSA_n k) = Inr m"
proof -
  note f = RSA_init_facts [OF assms(1,2,4)] and n = RSA_init_modulus [OF assms(1,2,4)]
  have p: "trial_division p" "100 \<le> p" "p \<le> 1000" and q: "trial_division q" "100 \<le> q" "q \<le> 1000"
    using assms(1,2) by (simp_all add: generatePrime_returns_iff)
  have "\<exists>c. encrypt k m = Inr c \<and> \<bar>c\<bar> < p * q \<and> decrypt k c = Inr m"
  proof (rule rsa_round_trip [OF p q assms(3), where e = 65537 and d = "RSA_d k"])
    show "(int 65537 * RSA_d k) mod ((p - 1) * (q - 1)) = 1" using f by simp
  qed (use f assms(5) in simp_all)
  moreover have "in_ll m" using assms(5) n unfolding in_ll_numeral_bounds by linarith
  then have "encrypt k m = Inr ((m ^ nat (RSA_e k)) smod RSA_n k)"
    using n by (intro encrypt_value) auto
  ultimately show ?thesis by auto
qed

lemma decryptString_encrypted:
  assumes "generatePrime_returns p" "generatePrime_returns q" "p \<noteq> q" "RSA_init p q = Inr k"
  shows "for_each (\<lambda>token. and_then (stoll token) (\<lambda>num.
        and_then (decrypt k num) (\<lambda>decrypted. Inr [char_of decrypted])))
      (map (\<lambda>c. to_string ((char_value sc c ^ nat (RSA_e k)) smod RSA_n k)) message) result
    = Inr (result @ message)"
proof (induction message arbitrary: result)
  case Nil
  show ?case by simp
next
  case (Cons c message)
  note n = RSA_init_modulus [OF assms(1,2,4)]
  define x where "x = (char_value sc c ^ nat (RSA_e k)) smod RSA_n k"
  have m: "\<bar>char_value sc c\<bar> < RSA_n k" using char_value_range [of sc c] n by linarith
  have "\<bar>x\<bar> < RSA_n k" unfolding x_def using abs_smod_less [of "RSA_n k"] n by simp
  then have "in_ll x" using n unfolding in_ll_numeral_bounds by linarith
  then have s: "stoll (to_string x) = Inr x" by (rule stoll_to_string)
  have d: "decrypt k x = Inr (char_value sc c)"
    unfolding x_def by (rule key_round_trip [OF assms m])
  show ?case using Cons [of "result @ [c]"]
    by (simp add: s d char_of_char_value flip: x_def)
qed

text \<open>
  C6 (amended). Given a key that the constructor has built from two distinct primes
  (\<open>gcd e phi = 1\<close> holds for it), \<open>decryptString (encryptString s) = s\<close> for every string
  \<open>s\<close>, whether \<^verbatim>\<open>char\<close> is signed or not: every character code is below \<open>n\<close> in
  absolute value, as \<open>n > 10000\<close>.
\<close>

theorem C6_decryptString_encryptString:
  assumes "generatePrime_returns p" "generatePrime_returns q" "p \<noteq> q"
    and "RSA_init p q = Inr k" and "gcd (RSA_e k) (RSA_phi k) = 1"
  shows "\<exists>c. encryptString sc k s = Inr c \<and> decryptString k c = Inr s"
proof -
  note n = RSA_init_modulus [OF assms(1,2,4)]
  define c where
    "c = concat (map (\<lambda>c. to_string ((char_value sc c ^ nat (RSA_e k)) smod RSA_n k) @ '' '') s)"
  have "encryptString sc k s = Inr c"
    using n by (simp add: encryptString_def encryptString_loop_value c_def)
  moreover have "tokens c = map (\<lambda>c. to_string ((char_value sc c ^ nat (RSA_e k)) smod RSA_n k)) s"
    using tokens_trailing_spaces
      [of "map (\<lambda>c. to_string ((char_value sc c ^ nat (RSA_e k)) smod RSA_n k)) s"]
    by (simp add: c_def list_all_iff is_token_to_string comp_def)
  then have "decryptString k c = Inr s"
    using decryptString_encrypted [OF assms(1-4), of sc s "[]"]
    by (simp add: decryptString_def decryptString_loop_for_each)
  ultimately show ?thesis by blast
qed

theorem C6_decryptString_encryptString_witness:
  "\<exists>c. encryptString True
        \<lparr>RSA_p = 101, RSA_q = 103, RSA_n = 10403, RSA_phi = 10200, RSA_e = 65537, RSA_d = 10073\<rparr>
        ''Hello, World!'' = Inr c
    \<and> decryptString
        \<lparr>RSA_p = 101, RSA_q = 103, RSA_n = 10403, RSA_phi = 10200, RSA_e = 65537, RSA_d = 10073\<rparr>
        c = Inr ''Hello, World!''"
proof -
  have p: "generatePrime_returns 101" and q: "generatePrime_returns 103" by code_simp+
  have k: "RSA_init 101 103 = Inr
      \<lparr>RSA_p = 101, RSA_q = 103, RSA_n = 10403, RSA_phi = 10200, RSA_e = 65537, RSA_d = 10073\<rparr>"
    by code_simp
  have g: "gcd (65537::int) 10200 = 1" by code_simp
  show ?thesis by (rule C6_decryptString_encryptString [OF p q _ k]) (simp_all add: g)
qed

text \<open>
  The claim as stated fails for a key built from twice the same prime, which also has
  \<open>gcd e phi = 1\<close>: with \<open>p = q = 101\<close> the letter \<open>e\<close> (code 101) comes back as the
  character 0.
\<close>

theorem C6_equal_primes_counterexample:
  "generatePrime_returns 101 \<and> gcd 65537 ((101 - 1) * (101 - 1)) = (1::int)
    \<and> char_value True CHR ''e'' < 101 * 101
    \<and> and_then (RSA_init 101 101) (\<lambda>k. and_then (encryptString True k ''e'') (decryptString k))
        = Inr [CHR 0x00]
    \<and> [CHR 0x00] \<noteq> ''e''"
  by code_simp

text \<open>The whitespace characters are the space and \<^verbatim>\<open>\t \n \v \f \r\<close>.\<close>

lemma isspace_chars:
  "isspace c \<longleftrightarrow> c \<in> set [CHR '' '', CHR 0x09, CHR 0x0A, CHR 0x0B, CHR 0x0C, CHR 0x0D]"
proof
  assume "isspace c"
  then have "(of_char c :: nat) = 32 \<or> (of_char c :: nat) = 9 \<or> (of_char c :: nat) = 10
      \<or> (of_char c :: nat) = 11 \<or> (of_char c :: nat) = 12 \<or> (of_char c :: nat) = 13"
    unfolding isspace_def by arith
  then have "(of_char c :: nat) = of_char CHR '' '' \<or> (of_char c :: nat) = of_char CHR 0x09
      \<or> (of_char c :: nat) = of_char CHR 0x0A \<or> (of_char c :: nat) = of_char CHR 0x0B
      \<or> (of_char c :: nat) = of_char CHR 0x0C \<or> (of_char c :: nat) = of_char CHR 0x0D"
    by simp
  then have "c = CHR '' '' \<or> c = CHR 0x09 \<or> c = CHR 0x0A \<or> c = CHR 0x0B \<or> c = CHR 0x0C
      \<or> c = CHR 0x0D"
    by (simp only: of_char_eq_iff)
  then show "c \<in> set [CHR '' '', CHR 0x09, CHR 0x0A, CHR 0x0B, CHR 0x0C, CHR 0x0D]"
    by simp
next
  assume "c \<in> set [CHR '' '', CHR 0x09, CHR 0x0A, CHR 0x0B, CHR 0x0C, CHR 0x0D]"
  then show "isspace c" by (auto simp: isspace_def)
qed

text \<open>
  C10. \<open>decryptString\<close> and \<open>decryptHuffmanCodes\<close> split their input on runs of
  whitespace. Take any sequence \<open>ts\<close> of tokens and lay it out with any whitespace
  \<open>lead\<close> before the first token, any nonempty whitespace between two tokens and any
  whitespace after the last. On that input each function runs its loop body once on each
  token of \<open>ts\<close>, in order, and on nothing else: \<open>decryptString\<close> appends the character
  that \<open>decrypt (stoll token)\<close> gives, \<open>decryptHuffmanCodes\<close> appends
  \<open>longToBinary (decrypt (binaryToLong token))\<close> at the width of the token and a space, and
  the first fault ends the run. Hence every layout gives the same result (or the same
  fault) as joining the tokens with single spaces; and on an empty or all-whitespace input
  both return the empty string. The whitespace characters are exactly the six of
  \<^verbatim>\<open>std::isspace\<close>.
\<close>

theorem C10_whitespace_runs:
  assumes "length ws = length ts" and "list_all is_token ts"
    and "list_all (list_all isspace) ws" and "list_all (\<lambda>w. w \<noteq> []) (butlast ws)"
    and "list_all isspace lead"
  shows "decryptString k (lead @ concat (map2 (@) ts ws))
        = for_each (\<lambda>token. and_then (stoll token) (\<lambda>num.
            and_then (decrypt k num) (\<lambda>decrypted. Inr [char_of decrypted]))) ts []
    \<and> decryptHuffmanCodes sc k (lead @ concat (map2 (@) ts ws))
        = for_each (\<lambda>token. and_then (decrypt k (binaryToLong sc token)) (\<lambda>decrypted.
            and_then (longToBinary decrypted (size_to_int (length token))) (\<lambda>decryptedBinary.
              Inr (decryptedBinary @ '' '')))) ts []
    \<and> decryptString k (lead @ concat (map2 (@) ts ws)) = decryptString k (join_spaces ts)
    \<and> decryptHuffmanCodes sc k (lead @ concat (map2 (@) ts ws))
        = decryptHuffmanCodes sc k (join_spaces ts)
    \<and> decryptString k lead = Inr [] \<and> decryptHuffmanCodes sc k lead = Inr []
    \<and> (isspace c
        \<longleftrightarrow> c \<in> set [CHR '' '', CHR 0x09, CHR 0x0A, CHR 0x0B, CHR 0x0C, CHR 0x0D])"
proof -
  have t: "tokens (lead @ concat (map2 (@) ts ws)) = ts" by (rule tokens_layout [OF assms])
  have j: "tokens (join_spaces ts) = ts" by (rule tokens_join_spaces [OF assms(2)])
  have l: "tokens lead = []" by (rule tokens_all_whitespace [OF assms(5)])
  have "decryptString k (lead @ concat (map2 (@) ts ws))
        = for_each (\<lambda>token. and_then (stoll token) (\<lambda>num.
            and_then (decrypt k num) (\<lambda>decrypted. Inr [char_of decrypted]))) ts []
    \<and> decryptHuffmanCodes sc k (lead @ concat (map2 (@) ts ws))
        = for_each (\<lambda>token. and_then (decrypt k (binaryToLong sc token)) (\<lambda>decrypted.
            and_then (longToBinary decrypted (size_to_int (length token))) (\<lambda>decryptedBinary.
              Inr (decryptedBinary @ '' '')))) ts []
    \<and> decryptString k (lead @ concat (map2 (@) ts ws)) = decryptString k (join_spaces ts)
    \<and> decryptHuffmanCodes sc k (lead @ concat (map2 (@) ts ws))
        = decryptHuffmanCodes sc k (join_spaces ts)
    \<and> decryptString k lead = Inr [] \<and> decryptHuffmanCodes sc k lead = Inr []"
    by (simp add: decryptString_def decryptString_loop_for_each
        decryptHuffmanCodes_def decryptHuffmanCodes_loop_for_each t j l)
  moreover note isspace_chars [of c]
  ultimately show ?thesis by blast
qed

theorem C10_whitespace_runs_witness:
  "decryptString
      \<lparr>RSA_p = 101, RSA_q = 103, RSA_n = 10403, RSA_phi = 10200, RSA_e = 65537, RSA_d = 10073\<rparr>
      ([CHR 0x0A, CHR '' ''] @ concat (map2 (@) [''7347'', ''4742''] [[CHR 0x09, CHR '' ''], '' '']))
    = Inr ''Hi''
    \<and> decryptString
      \<lparr>RSA_p = 101, RSA_q = 103, RSA_n = 10403, RSA_phi = 10200, RSA_e = 65537, RSA_d = 10073\<rparr>
      (join_spaces [''7347'', ''4742'']) = Inr ''Hi''
    \<and> decryptHuffmanCodes True
      \<lparr>RSA_p = 101, RSA_q = 103, RSA_n = 10403, RSA_phi = 10200, RSA_e = 65537, RSA_d = 10073\<rparr>
      ([CHR 0x0D] @ concat (map2 (@) [''01110010110011'', ''1''] [[CHR 0x0C, CHR 0x0B], []]))
    = Inr ''00000001001000 1 ''
    \<and> decryptHuffmanCodes True
      \<lparr>RSA_p = 101, RSA_q = 103, RSA_n = 10403, RSA_phi = 10200, RSA_e = 65537, RSA_d = 10073\<rparr>
      (join_spaces [''01110010110011'', ''1'']) = Inr ''00000001001000 1 ''
    \<and> decryptString
      \<lparr>RSA_p = 101, RSA_q = 103, RSA_n = 10403, RSA_phi = 10200, RSA_e = 65537, RSA_d = 10073\<rparr>
      [CHR 0x0A, CHR '' ''] = Inr []
    \<and> decryptHuffmanCodes True
      \<lparr>RSA_p = 101, RSA_q = 103, RSA_n = 10403, RSA_phi = 10200, RSA_e = 65537, RSA_d = 10073\<rparr>
      [CHR 0x0D] = Inr []
    \<and> isspace CHR 0x09"
proof -
  let ?k = "\<lparr>RSA_p = 101, RSA_q = 103, RSA_n = 10403, RSA_phi = 10200, RSA_e = 65537,
    RSA_d = 10073\<rparr>"
  have s: "for_each (\<lambda>token. and_then (stoll token) (\<lambda>num.
            and_then (decrypt ?k num) (\<lambda>decrypted. Inr [char_of decrypted])))
          [''7347'', ''4742''] [] = Inr ''Hi''"
    by code_simp
  have h: "for_each (\<lambda>token. and_then (decrypt ?k (binaryToLong True token)) (\<lambda>decrypted.
            and_then (longToBinary decrypted (size_to_int (length token))) (\<lambda>decryptedBinary.
              Inr (decryptedBinary @ '' '')))) [''01110010110011'', ''1''] []
          = Inr ''00000001001000 1 ''"
    by code_simp
  have a: "list_all isspace [CHR 0x0A, CHR '' '']" "list_all isspace [CHR 0x0D]"
    "list_all (list_all isspace) [[CHR 0x09, CHR '' ''], '' '']"
    "list_all (list_all isspace) [[CHR 0x0C, CHR 0x0B], []]"
    "list_all is_token [''7347'', ''4742'']" "list_all is_token [''01110010110011'', ''1'']"
    "isspace CHR 0x09"
    by (simp_all add: is_token_def isspace_def)
  have n: "length [[CHR 0x09, CHR '' ''], '' ''] = length [''7347'', ''4742'']"
    "length [[CHR 0x0C, CHR 0x0B], []] = length [''01110010110011'', ''1'']"
    "list_all (\<lambda>w. w \<noteq> []) (butlast [[CHR 0x09, CHR '' ''], '' ''])"
    "list_all (\<lambda>w. w \<noteq> []) (butlast [[CHR 0x0C, CHR 0x0B], []])"
    by simp_all
  note A = C10_whitespace_runs [OF n(1) a(5) a(3) n(3) a(1),
      where k = ?k and sc = True and c = "CHR 0x09"]
  note B = C10_whitespace_runs [OF n(2) a(6) a(4) n(4) a(2),
      where k = ?k and sc = True and c = "CHR 0x09"]
  note A1 = trans [OF A [THEN conjunct1] s]
  note A3 = A [THEN conjunct2, THEN conjunct2, THEN conjunct1]
  note A5 = A [THEN conjunct2, THEN conjunct2, THEN conjunct2, THEN conjunct2, THEN conjunct1]
  note B2 = trans [OF B [THEN conjunct2, THEN conjunct1] h]
  note B4 = B [THEN conjunct2, THEN conjunct2, THEN conjunct2, THEN conjunct1]
  note B6 = B [THEN conjunct2, THEN conjunct2, THEN conjunct2, THEN conjunct2, THEN conjunct2,
      THEN conjunct1]
  show ?thesis
    by (intro conjI)
      (rule A1 trans [OF A3 [symmetric] A1] B2 trans [OF B4 [symmetric] B2] A5 B6 a(7))+
qed

section \<open>The codec layer\<close>

lemma ll_shl1_value: "0 \<le> x \<Longrightarrow> 2 * x < 2 ^ 63 \<Longrightarrow> ll_shl1 x = 2 * x"
  by (simp add: ll_shl1_def signed_take_bit_int_eq_self)

lemma in_ll_signed_take_bit: "in_ll x \<longleftrightarrow> signed_take_bit 63 x = x"
  by (auto simp: in_ll_numeral_bounds signed_take_bit_int_eq_self_iff)

lemma in_ll_shl1: "in_ll (ll_shl1 x)"
  by (simp add: in_ll_signed_take_bit ll_shl1_def)

lemma signed_take_bit_or_int:
  "signed_take_bit n (a OR b) = signed_take_bit n a OR signed_take_bit n b" for a b :: int
  by (rule bit_eqI) (auto simp: bit_simps)

lemma in_ll_or: "in_ll a \<Longrightarrow> in_ll b \<Longrightarrow> in_ll (a OR b)"
  by (simp add: in_ll_signed_take_bit signed_take_bit_or_int)

lemma char_value_zero: "char_value sc CHR ''0'' = 48" and char_value_one: "char_value sc CHR ''1'' = 49"
  by (simp_all add: char_value_def)

lemma in_ll_binaryToLong_loop: "in_ll result \<Longrightarrow> in_ll (binaryToLong_loop sc binary result)"
proof (induction binary arbitrary: result)
  case Nil
  then show ?case by simp
next
  case (Cons b binary)
  have "- 128 \<le> char_value sc b \<and> char_value sc b \<le> 255"
    by (rule char_value_range)
  then have "in_ll (char_value sc b - char_value sc CHR ''0'')"
    by (simp add: char_value_zero in_ll_numeral_bounds)
  then have "in_ll (ll_shl1 result OR (char_value sc b - char_value sc CHR ''0''))"
    by (intro in_ll_or in_ll_shl1)
  then show ?case by (simp add: Cons.IH)
qed

lemma in_ll_binaryToLong: "in_ll (binaryToLong sc binary)"
  unfolding binaryToLong_def by (rule in_ll_binaryToLong_loop) (simp add: in_ll_numeral_bounds)

lemma bin_value_acc:
  "foldl (\<lambda>acc b. 2 * acc + (if b = CHR ''1'' then 1 else 0)) r bs
    = r * 2 ^ length bs + bin_value bs" for r :: int
proof (induction bs arbitrary: r)
  case Nil
  show ?case by (simp add: bin_value_def)
next
  case (Cons b bs)
  show ?case
    using Cons [of "2 * r + (if b = CHR ''1'' then 1 else 0)"] Cons [of "if b = CHR ''1'' then 1 else 0"]
    by (simp add: bin_value_def algebra_simps)
qed

lemma bin_value_Nil: "bin_value [] = 0"
  by (simp add: bin_value_def)

lemma bin_value_Cons:
  "bin_value (b # bs) = (if b = CHR ''1'' then 1 else 0) * 2 ^ length bs + bin_value bs"
  using bin_value_acc [of "if b = CHR ''1'' then 1 else 0" bs] by (simp add: bin_value_def)

lemma bin_value_range: "0 \<le> bin_value bs \<and> bin_value bs < 2 ^ length bs"
proof (induction bs)
  case Nil
  show ?case by (simp add: bin_value_Nil)
next
  case (Cons b bs)
  then show ?case by (simp add: bin_value_Cons)
qed

lemma binaryToLong_loop_value:
  "is_binary bs \<Longrightarrow> 0 \<le> r \<Longrightarrow> r * 2 ^ length bs + bin_value bs < 2 ^ 63 \<Longrightarrow>
   binaryToLong_loop sc bs r = r * 2 ^ length bs + bin_value bs"
proof (induction bs arbitrary: r)
  case Nil
  show ?case by (simp add: bin_value_Nil)
next
  case (Cons b bs)
  define d :: int where "d = (if b = CHR ''1'' then 1 else 0)"
  have b: "b = CHR ''0'' \<or> b = CHR ''1''" and bs: "is_binary bs"
    using Cons.prems(1) by (simp_all add: is_binary_def)
  have cd: "char_value sc b - char_value sc CHR ''0'' = d"
    using b by (auto simp: d_def char_value_zero char_value_one)
  have d01: "0 \<le> d" "d \<le> 1" by (simp_all add: d_def)
  have tot: "(2 * r + d) * 2 ^ length bs + bin_value bs < 2 ^ 63"
    using Cons.prems(3) by (simp add: bin_value_Cons d_def algebra_simps)
  have p: "(1::int) \<le> 2 ^ length bs" by simp
  have "(2 * r + d) * 1 \<le> (2 * r + d) * 2 ^ length bs"
    using Cons.prems(2) d01 p by (intro mult_left_mono) auto
  then have le: "2 * r + d \<le> (2 * r + d) * 2 ^ length bs" by simp
  have nn: "0 \<le> bin_value bs" using bin_value_range [of bs] by simp
  define X where "X = (2 * r + d) * 2 ^ length bs"
  have "2 * r + d \<le> X" "X + bin_value bs < 2 ^ 63" using le tot by (simp_all add: X_def)
  with nn have r2: "2 * r + d < 2 ^ 63" by simp
  then have sh: "ll_shl1 r = 2 * r" using Cons.prems(2) d01 by (intro ll_shl1_value) auto
  have o: "2 * r OR d = 2 * r + d"
    by (cases "b = CHR ''1''") (simp_all add: d_def or_one_eq)
  have "binaryToLong_loop sc (b # bs) r = binaryToLong_loop sc bs (2 * r + d)"
    by (simp add: cd sh o)
  also have "\<dots> = (2 * r + d) * 2 ^ length bs + bin_value bs"
    using bs Cons.prems(2) d01 tot by (intro Cons.IH) auto
  also have "\<dots> = r * 2 ^ length (b # bs) + bin_value (b # bs)"
    by (simp add: bin_value_Cons d_def algebra_simps)
  finally show ?case .
qed

lemma binaryToLong_value:
  "is_binary bs \<Longrightarrow> bin_value bs < 2 ^ 63 \<Longrightarrow> binaryToLong sc bs = bin_value bs"
  using binaryToLong_loop_value [of bs 0 sc] by (simp add: binaryToLong_def)

lemma binary_digits_0: "binary_digits v 0 = []"
  by (simp add: binary_digits_def)

lemma binary_digits_Suc:
  "binary_digits v (Suc w) = (if bit v w then CHR ''1'' else CHR ''0'') # binary_digits v w"
  by (simp add: binary_digits_def)

lemma length_binary_digits: "length (binary_digits v w) = w"
  by (simp add: binary_digits_def)

lemma is_binary_binary_digits: "is_binary (binary_digits v w)"
  by (auto simp: binary_digits_def is_binary_def list_all_iff)

lemma bin_value_binary_digits: "bin_value (binary_digits v w) = take_bit w v"
proof (induction w)
  case 0
  show ?case by (simp add: binary_digits_0 bin_value_Nil)
next
  case (Suc w)
  show ?case
    by (simp add: binary_digits_Suc bin_value_Cons length_binary_digits Suc take_bit_Suc_from_most)
qed

lemma binary_digits_take_bit: "binary_digits (take_bit w v) w = binary_digits v w"
  by (simp add: binary_digits_def bit_take_bit_iff)

lemma binary_digits_bin_value: "is_binary t \<Longrightarrow> binary_digits (bin_value t) (length t) = t"
proof (induction t)
  case Nil
  show ?case by (simp add: binary_digits_0)
next
  case (Cons b t)
  define d :: int where "d = (if b = CHR ''1'' then 1 else 0)"
  define n where "n = length t"
  have b: "b = CHR ''0'' \<or> b = CHR ''1''" and t: "is_binary t"
    using Cons.prems by (simp_all add: is_binary_def)
  have v: "bin_value (b # t) = d * 2 ^ n + bin_value t" by (simp add: bin_value_Cons d_def n_def)
  have r: "0 \<le> bin_value t" "bin_value t < 2 ^ n" using bin_value_range [of t] by (simp_all add: n_def)
  have "take_bit n (d * 2 ^ n + bin_value t) = bin_value t"
    using r by (simp add: take_bit_eq_mod)
  then have low: "binary_digits (d * 2 ^ n + bin_value t) n = binary_digits (bin_value t) n"
    using binary_digits_take_bit [of n "d * 2 ^ n + bin_value t"] by simp
  have "(d * 2 ^ n + bin_value t) div 2 ^ n = d" using r by simp
  then have "bit (d * 2 ^ n + bin_value t) n \<longleftrightarrow> d = 1"
    by (simp add: bit_iff_odd d_def)
  then have hi: "(if bit (d * 2 ^ n + bin_value t) n then CHR ''1'' else CHR ''0'') = b"
    using b by (auto simp: d_def)
  show ?case
    using Cons.IH [OF t] by (simp add: v binary_digits_Suc low hi flip: n_def)
qed

lemma longToBinary_loop_value:
  "- 1 \<le> i \<Longrightarrow> i < 64 \<Longrightarrow>
   longToBinary_loop num i result = Inr (result @ binary_digits num (nat (i + 1)))"
proof (induction num i result rule: longToBinary_loop.induct)
  case (1 num i result)
  show ?case
  proof (cases "i \<ge> 0")
    case False
    then show ?thesis by (subst longToBinary_loop.simps) (simp add: binary_digits_0)
  next
    case True
    have sh: "ll_shr num i = Inr (drop_bit (nat i) num)" using True 1(3) by (simp add: ll_shr_def)
    have c: "drop_bit (nat i) num AND 1 \<noteq> 0 \<longleftrightarrow> bit num (nat i)"
      by (simp add: and_one_odd bit_iff_odd_drop_bit)
    have n: "nat (i + 1) = Suc (nat i)" "nat (i - 1 + 1) = nat i" using True by simp_all
    have "longToBinary_loop num (i - 1)
        (result @ [if drop_bit (nat i) num AND 1 \<noteq> 0 then CHR ''1'' else CHR ''0''])
      = Inr ((result @ [if drop_bit (nat i) num AND 1 \<noteq> 0 then CHR ''1'' else CHR ''0''])
          @ binary_digits num (nat (i - 1 + 1)))"
      using True 1(3) by (intro 1(1) [OF True sh]) auto
    then show ?thesis
      using True sh by (subst longToBinary_loop.simps) (simp add: n binary_digits_Suc c)
  qed
qed

lemma longToBinary_value:
  "0 \<le> bits \<Longrightarrow> bits \<le> 64 \<Longrightarrow> longToBinary num bits = Inr (binary_digits num (nat bits))"
  using longToBinary_loop_value [of "bits - 1" num "[]"]
  by (simp add: longToBinary_def INT_MIN_def)

lemma longToBinary_too_wide:
  assumes "64 < bits"
  shows "longToBinary num bits = Inl ShiftOutOfRange"
proof -
  have "longToBinary_loop num (bits - 1) [] = Inl ShiftOutOfRange"
    using assms by (subst longToBinary_loop.simps) (simp add: ll_shr_def)
  then show ?thesis using assms by (simp add: longToBinary_def INT_MIN_def)
qed

lemma size_to_int_small: "len < 2 ^ 31 \<Longrightarrow> size_to_int len = int len"
  by (simp add: size_to_int_def signed_take_bit_int_eq_self)

section \<open>Encrypting and decrypting Huffman codes\<close>

lemma for_each_map:
  assumes "\<And>t. t \<in> set ts \<Longrightarrow> body (f t) = Inr (g t)"
  shows "for_each body (map f ts) result = Inr (result @ concat (map g ts))"
  using assms
proof (induction ts arbitrary: result)
  case Nil
  show ?case by simp
next
  case (Cons t ts)
  have "body (f t) = Inr (g t)" by (rule Cons.prems) simp
  moreover have "for_each body (map f ts) (result @ g t) = Inr ((result @ g t) @ concat (map g ts))"
    by (rule Cons.IH) (simp add: Cons.prems)
  ultimately show ?case by simp
qed

lemma encrypt_token:
  assumes "1 < RSA_n k" "RSA_n k \<le> 3037000500" "length token \<le> 64"
  shows "and_then (encrypt k (binaryToLong sc token)) (\<lambda>encrypted.
          and_then (longToBinary encrypted (size_to_int (length token))) (\<lambda>encryptedBinary.
            Inr (encryptedBinary @ '' '')))
    = Inr (binary_digits ((binaryToLong sc token ^ nat (RSA_e k)) smod RSA_n k) (length token) @ '' '')"
proof -
  define x where "x = (binaryToLong sc token ^ nat (RSA_e k)) smod RSA_n k"
  have s: "size_to_int (length token) = int (length token)"
    using assms(3) by (intro size_to_int_small) simp
  have e: "encrypt k (binaryToLong sc token) = Inr x"
    unfolding x_def by (rule encrypt_value [OF assms(1,2) in_ll_binaryToLong])
  have "longToBinary x (int (length token)) = Inr (binary_digits x (nat (int (length token))))"
    using assms(3) by (intro longToBinary_value) simp_all
  then have l: "longToBinary x (size_to_int (length token)) = Inr (binary_digits x (length token))"
    by (simp add: s)
  show ?thesis unfolding e and_then_Inr l x_def [symmetric] by simp
qed

lemma decrypt_token:
  assumes "1 < RSA_n k" "RSA_n k \<le> 3037000500" "length token \<le> 64"
  shows "and_then (decrypt k (binaryToLong sc token)) (\<lambda>decrypted.
          and_then (longToBinary decrypted (size_to_int (length token))) (\<lambda>decryptedBinary.
            Inr (decryptedBinary @ '' '')))
    = Inr (binary_digits ((binaryToLong sc token ^ nat (RSA_d k)) smod RSA_n k) (length token) @ '' '')"
proof -
  define x where "x = (binaryToLong sc token ^ nat (RSA_d k)) smod RSA_n k"
  have s: "size_to_int (length token) = int (length token)"
    using assms(3) by (intro size_to_int_small) simp
  have e: "decrypt k (binaryToLong sc token) = Inr x"
    unfolding x_def by (rule decrypt_value [OF assms(1,2) in_ll_binaryToLong])
  have "longToBinary x (int (length token)) = Inr (binary_digits x (nat (int (length token))))"
    using assms(3) by (intro longToBinary_value) simp_all
  then have l: "longToBinary x (size_to_int (length token)) = Inr (binary_digits x (length token))"
    by (simp add: s)
  show ?thesis unfolding e and_then_Inr l x_def [symmetric] by simp
qed

lemma encryptHuffmanCodes_value:
  assumes "1 < RSA_n k" "RSA_n k \<le> 3037000500" "\<And>t. t \<in> set (tokens codes) \<Longrightarrow> length t \<le> 64"
  shows "encryptHuffmanCodes sc k codes =
    Inr (concat (map (\<lambda>t. binary_digits
        ((binaryToLong sc t ^ nat (RSA_e k)) smod RSA_n k) (length t) @ '' '') (tokens codes)))"
proof -
  have "for_each (\<lambda>token. and_then (encrypt k (binaryToLong sc token)) (\<lambda>encrypted.
        and_then (longToBinary encrypted (size_to_int (length token))) (\<lambda>encryptedBinary.
          Inr (encryptedBinary @ '' ''))))
       (map (\<lambda>t. t) (tokens codes)) []
    = Inr ([] @ concat (map (\<lambda>t. binary_digits
        ((binaryToLong sc t ^ nat (RSA_e k)) smod RSA_n k) (length t) @ '' '') (tokens codes)))"
    by (rule for_each_map [where f = "\<lambda>t. t" and ts = "tokens codes"
          and g = "\<lambda>t. binary_digits
            ((binaryToLong sc t ^ nat (RSA_e k)) smod RSA_n k) (length t) @ '' ''"])
      (rule encrypt_token [OF assms(1,2) assms(3)])
  then show ?thesis
    by (simp add: encryptHuffmanCodes_def encryptHuffmanCodes_loop_for_each)
qed

lemma binary_digit_not_isspace: "b = CHR ''0'' \<or> b = CHR ''1'' \<Longrightarrow> \<not> isspace b"
proof -
  have "\<not> isspace CHR ''0''" "\<not> isspace CHR ''1''" by (simp_all add: isspace_def)
  then show "b = CHR ''0'' \<or> b = CHR ''1'' \<Longrightarrow> \<not> isspace b" by blast
qed

lemma is_token_binary:
  assumes "is_binary t" "t \<noteq> []"
  shows "is_token t"
proof -
  have "\<not> isspace b" if "b \<in> set t" for b
    using assms(1) that by (intro binary_digit_not_isspace) (simp add: is_binary_def list_all_iff)
  then show ?thesis using assms(2) by (simp add: is_token_def list_all_iff)
qed

lemma is_token_nonempty: "is_token t \<Longrightarrow> t \<noteq> []"
  by (simp add: is_token_def)

lemma tokens_single: "is_token t \<Longrightarrow> tokens t = [t]"
  using tokens_token [of t "[]"] by (simp add: tokens_all_whitespace)

lemma bin_value_zeros: "bin_value (replicate n CHR ''0'') = 0"
  by (induction n) (simp_all add: bin_value_Nil bin_value_Cons)

lemma binaryToLong_zeros: "binaryToLong sc (replicate n CHR ''0'') = 0"
  using binaryToLong_value [of "replicate n CHR ''0''" sc]
  by (simp add: bin_value_zeros is_binary_def list_all_iff)

lemma longToBinary_negative:
  assumes "bits < 0" "bits \<noteq> INT_MIN"
  shows "longToBinary num bits = Inr []"
proof -
  have "longToBinary_loop num (bits - 1) [] = Inr []"
    using assms(1) by (subst longToBinary_loop.simps) simp
  then show ?thesis using assms(2) by (simp add: longToBinary_def)
qed

text \<open>
  A token so long that its length, converted to \<^verbatim>\<open>int\<close>, is negative is rendered
  by the empty string.
\<close>

lemma encryptHuffmanCodes_negative_width:
  assumes "generatePrime_returns p" "generatePrime_returns q" "RSA_init p q = Inr k"
    and "0 < n" "size_to_int n < 0" "size_to_int n \<noteq> INT_MIN"
  shows "encryptHuffmanCodes sc k (replicate n CHR ''0'') = Inr '' ''"
proof -
  have m: "1 < RSA_n k" "RSA_n k \<le> 3037000500"
    using RSA_init_modulus [OF assms(1-3)] by simp_all
  have e: "RSA_e k = 65537" using RSA_init_facts [OF assms(1-3)] by simp
  define z where "z = replicate n CHR ''0''"
  have "is_binary z" by (simp add: z_def is_binary_def list_all_iff)
  moreover have "z \<noteq> []" using assms(4) by (simp add: z_def)
  ultimately have t: "tokens z = [z]" by (intro tokens_single is_token_binary)
  have b: "binaryToLong sc z = 0" unfolding z_def by (rule binaryToLong_zeros)
  have "encrypt k 0 = Inr ((0 ^ nat (RSA_e k)) smod RSA_n k)"
    by (rule encrypt_value [OF m]) (simp add: in_ll_numeral_bounds)
  then have c: "encrypt k 0 = Inr 0" by (simp add: e)
  have "length z = n" by (simp add: z_def)
  then have l: "longToBinary 0 (size_to_int (length z)) = Inr []"
    using assms(5,6) by (simp add: longToBinary_negative)
  show ?thesis
    unfolding z_def [symmetric]
    by (simp add: encryptHuffmanCodes_def encryptHuffmanCodes_loop_for_each t b c l)
qed

section \<open>The claims about the codec layer and the Huffman codes\<close>

text \<open>
  C9 (amended). For every value \<open>v \<ge> 0\<close> of the integer type and every width
  \<open>0 \<le> w \<le> 64\<close>, \<open>longToBinary v w\<close> is the string of exactly \<open>w\<close> binary digits, most
  significant first, of the \<open>w\<close> low bits of \<open>v\<close>; \<open>binaryToLong\<close> returns the integer
  that a string of binary digits denotes whenever that integer is below \<open>2^63\<close>;
  consequently \<open>binaryToLong (longToBinary v w) = v mod 2^w\<close>.
\<close>

theorem C9_codec:
  assumes "0 \<le> v" "in_ll v" "0 \<le> w" "w \<le> 64"
  shows "(\<exists>s. longToBinary v w = Inr s \<and> s = binary_digits v (nat w) \<and> length s = nat w
        \<and> is_binary s \<and> bin_value s = v mod 2 ^ nat w \<and> binaryToLong sc s = v mod 2 ^ nat w)
    \<and> (is_binary t \<and> bin_value t < 2 ^ 63 \<longrightarrow> binaryToLong sc t = bin_value t)"
proof -
  define s where "s = binary_digits v (nat w)"
  have l: "longToBinary v w = Inr s" unfolding s_def by (rule longToBinary_value [OF assms(3,4)])
  have b: "bin_value s = v mod 2 ^ nat w"
    by (simp add: s_def bin_value_binary_digits take_bit_eq_mod)
  have "v mod 2 ^ nat w \<le> v" using assms(1) by (rule zmod_le_nonneg_dividend)
  then have "bin_value s < 2 ^ 63" using b assms(2) by (simp add: in_ll_numeral_bounds)
  then have "binaryToLong sc s = v mod 2 ^ nat w"
    using binaryToLong_value [of s sc] b by (simp add: s_def is_binary_binary_digits)
  then show ?thesis
    using l b by (simp add: s_def length_binary_digits is_binary_binary_digits binaryToLong_value)
qed

theorem C9_codec_witness:
  "(\<exists>s. longToBinary 5 4 = Inr s \<and> s = binary_digits 5 (nat 4) \<and> length s = nat 4
        \<and> is_binary s \<and> bin_value s = 5 mod 2 ^ nat 4 \<and> binaryToLong True s = 5 mod 2 ^ nat 4)
    \<and> binaryToLong True ''0110'' = bin_value ''0110''"
  using C9_codec [where v = 5 and w = 4 and t = "''0110''" and sc = True]
  by (simp add: in_ll_numeral_bounds is_binary_def bin_value_def)

text \<open>
  The claim as stated fails for a width above 64, where the first shift
  \<^verbatim>\<open>num >> (w - 1)\<close> is by 64 bits or more, and for a digit string that denotes
  \<open>2^63\<close> or more, which wraps: 64 ones are read as \<open>- 1\<close>.
\<close>

theorem C9_codec_counterexample:
  "longToBinary 1 65 = Inl ShiftOutOfRange
    \<and> is_binary (replicate 64 CHR ''1'')
    \<and> binaryToLong True (replicate 64 CHR ''1'') = - 1
    \<and> bin_value (replicate 64 CHR ''1'') = 2 ^ 64 - 1"
  by code_simp

text \<open>
  C8 (amended). For every input string, the output of \<open>encryptString\<close> is one decimal
  integer per input character, each followed by a single space; and for every input
  whose tokens have at most 64 characters, the output of \<open>encryptHuffmanCodes\<close> is one
  token of binary digits per input token, of exactly the length of that input token,
  each followed by a single space. (The key is any key the constructor builds.)
\<close>

theorem C8_output_format:
  assumes "generatePrime_returns p" "generatePrime_returns q" "RSA_init p q = Inr k"
    and "\<forall>t\<in>set (tokens huffmanCodes). length t \<le> 64"
  shows "(\<exists>ds. length ds = length message \<and> list_all is_decimal ds
        \<and> encryptString sc k message = Inr (concat (map (\<lambda>d. d @ '' '') ds)))
    \<and> (\<exists>bs. list_all2 (\<lambda>b t. is_binary b \<and> length b = length t) bs (tokens huffmanCodes)
        \<and> encryptHuffmanCodes sc k huffmanCodes = Inr (concat (map (\<lambda>b. b @ '' '') bs)))"
proof -
  have n: "1 < RSA_n k" "RSA_n k \<le> 3037000500"
    using RSA_init_modulus [OF assms(1-3)] by simp_all
  define ds where
    "ds = map (\<lambda>c. to_string ((char_value sc c ^ nat (RSA_e k)) smod RSA_n k)) message"
  define bs where
    "bs = map (\<lambda>t. binary_digits ((binaryToLong sc t ^ nat (RSA_e k)) smod RSA_n k) (length t))
      (tokens huffmanCodes)"
  have "encryptString sc k message = Inr (concat (map (\<lambda>d. d @ '' '') ds))"
    by (simp add: encryptString_def encryptString_loop_value [OF n] ds_def comp_def)
  moreover have "length ds = length message" "list_all is_decimal ds"
    by (simp_all add: ds_def list_all_iff is_decimal_to_string)
  moreover have "encryptHuffmanCodes sc k huffmanCodes = Inr (concat (map (\<lambda>b. b @ '' '') bs))"
    using assms(4) by (simp add: encryptHuffmanCodes_value [OF n] bs_def comp_def)
  moreover have "list_all2 (\<lambda>b t. is_binary b \<and> length b = length t) bs (tokens huffmanCodes)"
    by (simp add: bs_def list_all2_map1 list_all2_same is_binary_binary_digits length_binary_digits)
  ultimately show ?thesis by blast
qed

theorem C8_output_format_witness:
  "(\<exists>ds. length ds = length ''Hi'' \<and> list_all is_decimal ds
        \<and> encryptString True
            \<lparr>RSA_p = 101, RSA_q = 103, RSA_n = 10403, RSA_phi = 10200, RSA_e = 65537, RSA_d = 10073\<rparr>
            ''Hi'' = Inr (concat (map (\<lambda>d. d @ '' '') ds)))
    \<and> (\<exists>bs. list_all2 (\<lambda>b t. is_binary b \<and> length b = length t) bs (tokens ''010 1101 00'')
        \<and> encryptHuffmanCodes True
            \<lparr>RSA_p = 101, RSA_q = 103, RSA_n = 10403, RSA_phi = 10200, RSA_e = 65537, RSA_d = 10073\<rparr>
            ''010 1101 00'' = Inr (concat (map (\<lambda>b. b @ '' '') bs)))"
proof -
  have p: "generatePrime_returns 101" and q: "generatePrime_returns 103" by code_simp+
  have k: "RSA_init 101 103 = Inr
      \<lparr>RSA_p = 101, RSA_q = 103, RSA_n = 10403, RSA_phi = 10200, RSA_e = 65537, RSA_d = 10073\<rparr>"
    by code_simp
  have t: "tokens ''010 1101 00'' = [''010'', ''1101'', ''00'']" by code_simp
  show ?thesis by (rule C8_output_format [OF p q k]) (simp add: t)
qed

text \<open>
  The claim as stated fails for a token of more than 64 characters: rendering its
  ciphertext starts with a shift by 64 bits or more. The width is moreover passed as a
  32-bit \<^verbatim>\<open>int\<close>: a token of \<open>2^31 + 1\<close> characters has a negative width and
  is rendered by the empty string.
\<close>

theorem C8_long_token_counterexample:
  "and_then (RSA_init 101 103) (\<lambda>k. encryptHuffmanCodes True k (replicate 65 CHR ''0''))
      = Inl ShiftOutOfRange
    \<and> and_then (RSA_init 101 103) (\<lambda>k.
        encryptHuffmanCodes True k (replicate (2 ^ 31 + 1) CHR ''0'')) = Inr '' ''"
proof -
  have p: "generatePrime_returns 101" and q: "generatePrime_returns 103" by code_simp+
  have k: "RSA_init 101 103 = Inr
      \<lparr>RSA_p = 101, RSA_q = 103, RSA_n = 10403, RSA_phi = 10200, RSA_e = 65537, RSA_d = 10073\<rparr>"
    by code_simp
  have n: "0 < (2 ^ 31 + 1 :: nat)" "size_to_int (2 ^ 31 + 1) < 0"
    "size_to_int (2 ^ 31 + 1) \<noteq> INT_MIN"
    by (simp_all add: size_to_int_def INT_MIN_def)
  have a: "and_then (RSA_init 101 103) (\<lambda>k. encryptHuffmanCodes True k (replicate 65 CHR ''0''))
      = Inl ShiftOutOfRange"
    by code_simp
  have "encryptHuffmanCodes True
      \<lparr>RSA_p = 101, RSA_q = 103, RSA_n = 10403, RSA_phi = 10200, RSA_e = 65537, RSA_d = 10073\<rparr>
      (replicate (2 ^ 31 + 1) CHR ''0'') = Inr '' ''"
    by (rule encryptHuffmanCodes_negative_width [OF p q k n])
  then have b: "and_then (RSA_init 101 103) (\<lambda>k.
        encryptHuffmanCodes True k (replicate (2 ^ 31 + 1) CHR ''0'')) = Inr '' ''"
    unfolding k and_then_Inr .
  show ?thesis by (rule conjI [OF a b])
qed

text \<open>
  C7 (amended). Given a key that the constructor has built from two distinct primes,
  and a string \<open>codes\<close> whose tokens are binary digits, at most 64 each, with a value
  below \<open>n\<close> and a ciphertext that fits the token's width:
  \<open>decryptHuffmanCodes (encryptHuffmanCodes codes)\<close> is the sequence of the tokens of
  \<open>codes\<close>, each followed by a single space (it is \<open>codes\<close> itself when \<open>codes\<close> is
  written that way).
\<close>

theorem C7_huffman_round_trip:
  assumes "generatePrime_returns p" "generatePrime_returns q" "p \<noteq> q"
    and "RSA_init p q = Inr k" and "gcd (RSA_e k) (RSA_phi k) = 1"
    and "\<forall>t\<in>set (tokens codes). is_binary t \<and> length t \<le> 64 \<and> bin_value t < RSA_n k
          \<and> (\<forall>c. encrypt k (bin_value t) = Inr c \<longrightarrow> c < 2 ^ length t)"
  shows "\<exists>c. encryptHuffmanCodes sc k codes = Inr c
    \<and> decryptHuffmanCodes sc k c = Inr (concat (map (\<lambda>t. t @ '' '') (tokens codes)))
    \<and> (codes = concat (map (\<lambda>t. t @ '' '') (tokens codes)) \<longrightarrow>
        decryptHuffmanCodes sc k c = Inr codes)"
proof -
  have nb: "10000 \<le> RSA_n k" "RSA_n k \<le> 1000000"
    using RSA_init_modulus [OF assms(1,2,4)] by simp_all
  then have n: "1 < RSA_n k" "RSA_n k \<le> 3037000500" by simp_all
  define U where
    "U = (\<lambda>t. binary_digits ((binaryToLong sc t ^ nat (RSA_e k)) smod RSA_n k) (length t))"
  define c where "c = concat (map (\<lambda>t. U t @ '' '') (tokens codes))"
  have enc: "encryptHuffmanCodes sc k codes = Inr c"
    using assms(6) by (simp add: encryptHuffmanCodes_value [OF n] c_def U_def)
  have tok: "is_token t" if "t \<in> set (tokens codes)" for t
    using tokens_are_tokens [of codes] that by (simp add: list_all_iff)
  have "list_all is_token (map U (tokens codes))"
    unfolding list_all_iff
  proof
    fix u assume "u \<in> set (map U (tokens codes))"
    then obtain t where t: "t \<in> set (tokens codes)" and u: "u = U t" by auto
    have "t \<noteq> []" using tok [OF t] by (rule is_token_nonempty)
    moreover have "length (U t) = length t" by (simp add: U_def length_binary_digits)
    ultimately have "U t \<noteq> []" by (metis length_0_conv)
    then show "is_token u"
      unfolding u by (intro is_token_binary) (simp_all add: U_def is_binary_binary_digits)
  qed
  then have toks: "tokens c = map U (tokens codes)"
    using tokens_trailing_spaces [of "map U (tokens codes)"] by (simp add: c_def comp_def)
  have piece: "and_then (decrypt k (binaryToLong sc (U t))) (\<lambda>decrypted.
          and_then (longToBinary decrypted (size_to_int (length (U t)))) (\<lambda>decryptedBinary.
            Inr (decryptedBinary @ '' ''))) = Inr (t @ '' '')"
    if t: "t \<in> set (tokens codes)" for t
  proof -
    define v where "v = bin_value t"
    define x where "x = (v ^ nat (RSA_e k)) smod RSA_n k"
    have h: "is_binary t" "length t \<le> 64" "v < RSA_n k"
      "\<And>c. encrypt k v = Inr c \<Longrightarrow> c < 2 ^ length t"
      using assms(6) t by (auto simp: v_def)
    have v0: "0 \<le> v" using bin_value_range [of t] by (simp add: v_def)
    have "v < 2 ^ 63" using h(3) nb by simp
    then have bt: "binaryToLong sc t = v" unfolding v_def by (intro binaryToLong_value h(1)) simp
    have "in_ll v" using v0 h(3) nb by (simp add: in_ll_numeral_bounds)
    then have "encrypt k v = Inr x" unfolding x_def by (rule encrypt_value [OF n])
    then have xl: "x < 2 ^ length t" by (rule h(4))
    have x0: "0 \<le> x" "x < RSA_n k"
      using v0 n by (simp_all add: x_def smod_pos)
    have Ut: "U t = binary_digits x (length t)" by (simp add: U_def bt x_def)
    have "bin_value (U t) = x"
      using x0 xl by (simp add: Ut bin_value_binary_digits take_bit_eq_mod)
    moreover have "x < 2 ^ 63" using x0 nb by simp
    ultimately have bu: "binaryToLong sc (U t) = x"
      using binaryToLong_value [of "U t" sc] by (simp add: Ut is_binary_binary_digits)
    have lu: "length (U t) = length t" by (simp add: Ut length_binary_digits)
    have "\<bar>v\<bar> < RSA_n k" using v0 h(3) by simp
    then have "decrypt k x = Inr v"
      unfolding x_def by (rule key_round_trip [OF assms(1-4)])
    moreover have "in_ll x" using x0 nb by (simp add: in_ll_numeral_bounds)
    then have "decrypt k x = Inr ((x ^ nat (RSA_d k)) smod RSA_n k)" by (rule decrypt_value [OF n])
    ultimately have xd: "(x ^ nat (RSA_d k)) smod RSA_n k = v" by simp
    have "binary_digits v (length t) = t" unfolding v_def by (rule binary_digits_bin_value [OF h(1)])
    then show ?thesis
      using decrypt_token [OF n, of "U t" sc] h(2) by (simp add: lu bu xd)
  qed
  have "for_each (\<lambda>token. and_then (decrypt k (binaryToLong sc token)) (\<lambda>decrypted.
        and_then (longToBinary decrypted (size_to_int (length token))) (\<lambda>decryptedBinary.
          Inr (decryptedBinary @ '' '')))) (map U (tokens codes)) []
      = Inr ([] @ concat (map (\<lambda>t. t @ '' '') (tokens codes)))"
    by (rule for_each_map [where f = U and g = "\<lambda>t. t @ '' ''"]) (rule piece)
  then have "decryptHuffmanCodes sc k c = Inr (concat (map (\<lambda>t. t @ '' '') (tokens codes)))"
    by (simp add: decryptHuffmanCodes_def decryptHuffmanCodes_loop_for_each toks)
  with enc show ?thesis by auto
qed

theorem C7_huffman_round_trip_witness:
  "\<exists>c. encryptHuffmanCodes True
        \<lparr>RSA_p = 101, RSA_q = 103, RSA_n = 10403, RSA_phi = 10200, RSA_e = 65537, RSA_d = 10073\<rparr>
        ''00000001001000 1 '' = Inr c
    \<and> decryptHuffmanCodes True
        \<lparr>RSA_p = 101, RSA_q = 103, RSA_n = 10403, RSA_phi = 10200, RSA_e = 65537, RSA_d = 10073\<rparr>
        c = Inr ''00000001001000 1 ''"
proof -
  have p: "generatePrime_returns 101" and q: "generatePrime_returns 103" by code_simp+
  have k: "RSA_init 101 103 = Inr
      \<lparr>RSA_p = 101, RSA_q = 103, RSA_n = 10403, RSA_phi = 10200, RSA_e = 65537, RSA_d = 10073\<rparr>"
    by code_simp
  have g: "gcd (65537::int) 10200 = 1" by code_simp
  have t: "tokens ''00000001001000 1 '' = [''00000001001000'', ''1'']" by code_simp
  have v: "bin_value ''00000001001000'' = 72" "bin_value ''1'' = 1" by code_simp+
  have e: "encrypt
      \<lparr>RSA_p = 101, RSA_q = 103, RSA_n = 10403, RSA_phi = 10200, RSA_e = 65537, RSA_d = 10073\<rparr> 72
      = Inr 7347"
    "encrypt
      \<lparr>RSA_p = 101, RSA_q = 103, RSA_n = 10403, RSA_phi = 10200, RSA_e = 65537, RSA_d = 10073\<rparr> 1
      = Inr 1"
    by code_simp+
  have "\<exists>c. encryptHuffmanCodes True
        \<lparr>RSA_p = 101, RSA_q = 103, RSA_n = 10403, RSA_phi = 10200, RSA_e = 65537, RSA_d = 10073\<rparr>
        ''00000001001000 1 '' = Inr c
    \<and> decryptHuffmanCodes True
        \<lparr>RSA_p = 101, RSA_q = 103, RSA_n = 10403, RSA_phi = 10200, RSA_e = 65537, RSA_d = 10073\<rparr>
        c = Inr (concat (map (\<lambda>t. t @ '' '') (tokens ''00000001001000 1 '')))
    \<and> (''00000001001000 1 '' = concat (map (\<lambda>t. t @ '' '') (tokens ''00000001001000 1 '')) \<longrightarrow>
        decryptHuffmanCodes True
        \<lparr>RSA_p = 101, RSA_q = 103, RSA_n = 10403, RSA_phi = 10200, RSA_e = 65537, RSA_d = 10073\<rparr>
        c = Inr ''00000001001000 1 '')"
    by (rule C7_huffman_round_trip [OF p q _ k]) (simp_all add: g t v e is_binary_def)
  then show ?thesis by (simp add: t)
qed

text \<open>
  The claim as stated fails in three ways: the result always ends with a space and has
  single spaces between tokens, so \<open>1\<close> comes back as \<open>1\<close> and a space; a key of twice
  the same prime does not decrypt (\<open>p = q = 101\<close>, token \<open>1100101\<close>); and a token of
  more than 64 digits cannot be rendered.
\<close>

theorem C7_huffman_counterexample:
  "and_then (RSA_init 101 103) (\<lambda>k.
      and_then (encryptHuffmanCodes True k ''1'') (decryptHuffmanCodes True k)) = Inr ''1 ''
    \<and> ''1 '' \<noteq> ''1''
    \<and> and_then (RSA_init 101 103) (\<lambda>k. encrypt k (bin_value ''1'')) = Inr 1
    \<and> and_then (RSA_init 101 101) (\<lambda>k.
      and_then (encryptHuffmanCodes True k ''1100101 '') (decryptHuffmanCodes True k))
        = Inr ''0000000 ''
    \<and> bin_value ''1100101'' = 101
    \<and> and_then (RSA_init 101 101) (\<lambda>k. encrypt k 101) = Inr 0
    \<and> and_then (RSA_init 101 103) (\<lambda>k.
      encryptHuffmanCodes True k (replicate 64 CHR ''0'' @ ''1 '')) = Inl ShiftOutOfRange"
  by code_simp

end
